theory Spec2Isabelle
  imports Main "HOL-Library.Word" "HOL-Library.Monad_Syntax"
begin

unbundle bit_operations_syntax

section \<open>The WebSocket frame codec of wsframe.hpp\<close>

text \<open>
  A shallow embedding of \<^verbatim>\<open>include/wsframe/wsframe.hpp\<close>: the growable
  \<^verbatim>\<open>FrameBuffer\<close>, the serialiser \<^verbatim>\<open>Frame::construct\<close>, the
  \<^verbatim>\<open>FrameFactory\<close> with its cache of masking keys, and the incremental
  \<^verbatim>\<open>FrameParser\<close>.

  Conventions of the model.
  \<^item> Bytes (\<^verbatim>\<open>uint8_t\<close>, \<^verbatim>\<open>char\<close>) are \<open>8 word\<close>; 64-bit values whose bits
    matter (the generator state, the decoder's \<^verbatim>\<open>m_payload_len\<close>) are \<open>64 word\<close>;
    the promoted \<^verbatim>\<open>int\<close> of the decoder's shift is \<open>32 word\<close>.
  \<^item> Sizes and cursors (\<^verbatim>\<open>size_t\<close>: lengths, capacities, \<^verbatim>\<open>m_ptr\<close>) are \<open>nat\<close>.
    They count bytes of objects that exist in one 64-bit address space, so no sum of
    them formed by the code can wrap.
  \<^item> A write through an unchecked pointer or index (\<^verbatim>\<open>push_back(uint8_t)\<close>, the
    stores behind \<^verbatim>\<open>get_space\<close>) returns \<open>None\<close> when it falls outside the
    vector: \<open>None\<close> stands for the undefined behaviour of the source.
  \<^item> A thrown \<^verbatim>\<open>std::runtime_error\<close> is the value \<open>Inl PayloadTooLarge\<close>, returned
    together with the state the object is left in.
  \<^item> A \<^verbatim>\<open>string_view\<close> or \<^verbatim>\<open>View\<close> is the list of bytes it shows at the moment
    it is passed or returned.
\<close>

type_synonym u8 = "8 word"
type_synonym u64 = "64 word"
type_synonym bytes = "u8 list"

subsection \<open>XorShift128Plus\<close>

record XorShift128Plus =
  s0 :: u64
  s1 :: u64

definition XorShift128Plus_init :: "u64 \<Rightarrow> u64 \<Rightarrow> XorShift128Plus" where
  "XorShift128Plus_init seed1 seed2 =
     \<lparr>s0 = seed1, s1 = (if seed1 = 0 \<and> seed2 = 0 then 1 else seed2)\<rparr>"

definition next64 :: "XorShift128Plus \<Rightarrow> u64 \<times> XorShift128Plus" where
  "next64 g =
     (let x = s0 g;
          y = s1 g;
          x1 = x XOR push_bit 23 x;
          r = x1 XOR y XOR drop_bit 17 x1 XOR drop_bit 26 y
      in (r + y, \<lparr>s0 = y, s1 = r\<rparr>))"

text \<open>\<^verbatim>\<open>std::memcpy(buf, &rnd, n)\<close>: the first \<open>n\<close> bytes of the object
  representation of \<open>rnd\<close>, least significant byte first (a little-endian host).\<close>

definition object_bytes :: "u64 \<Rightarrow> nat \<Rightarrow> bytes" where
  "object_bytes rnd n = map (\<lambda>k. ucast (drop_bit (8 * k) rnd)) [0..<n]"

fun fill_bytes :: "nat \<Rightarrow> XorShift128Plus \<Rightarrow> bytes \<times> XorShift128Plus" where
  "fill_bytes n g =
     (if 8 \<le> n then
        (case next64 g of (rnd, g1) \<Rightarrow>
           (case fill_bytes (n - 8) g1 of (rest, g2) \<Rightarrow> (object_bytes rnd 8 @ rest, g2)))
      else if 0 < n then
        (case next64 g of (rnd, g1) \<Rightarrow> (object_bytes rnd n, g1))
      else ([], g))"

declare fill_bytes.simps [simp del]

subsection \<open>FrameBuffer\<close>

record FrameBuffer =
  m_buf :: bytes
  m_ptr :: nat

text \<open>\<^verbatim>\<open>FrameBuffer(initial_capacity)\<close>: a value-initialised vector, cursor 0.\<close>

definition FrameBuffer_init :: "nat \<Rightarrow> FrameBuffer" where
  "FrameBuffer_init initial_capacity = \<lparr>m_buf = replicate initial_capacity 0, m_ptr = 0\<rparr>"

definition capacity :: "FrameBuffer \<Rightarrow> nat" where
  "capacity b = length (m_buf b)"

definition FrameBuffer_reset :: "FrameBuffer \<Rightarrow> FrameBuffer" where
  "FrameBuffer_reset b = b\<lparr>m_ptr := 0\<rparr>"

text \<open>\<^verbatim>\<open>m_buf.resize(sz)\<close> for \<open>sz\<close> above the size appends zero bytes up to
  exactly \<open>sz\<close> elements.\<close>

definition ensure_fit :: "nat \<Rightarrow> FrameBuffer \<Rightarrow> FrameBuffer" where
  "ensure_fit sz b =
     (if capacity b < sz then b\<lparr>m_buf := m_buf b @ replicate (sz - capacity b) 0\<rparr> else b)"

definition ensure_extra_space :: "nat \<Rightarrow> FrameBuffer \<Rightarrow> FrameBuffer" where
  "ensure_extra_space extra b = ensure_fit (m_ptr b + extra) b"

text \<open>\<^verbatim>\<open>push_back(uint8_t)\<close>: no bounds checking in the source.\<close>

definition push_back :: "u8 \<Rightarrow> FrameBuffer \<Rightarrow> FrameBuffer option" where
  "push_back byte b =
     (if m_ptr b < capacity b
      then Some (b\<lparr>m_buf := (m_buf b)[m_ptr b := byte], m_ptr := m_ptr b + 1\<rparr>)
      else None)"

text \<open>\<^verbatim>\<open>get_space(sz)\<close> hands out the address of byte \<open>m_ptr\<close>, here the offset,
  and advances the cursor; it writes nothing itself.\<close>

definition get_space :: "nat \<Rightarrow> FrameBuffer \<Rightarrow> nat \<times> FrameBuffer" where
  "get_space sz b = (m_ptr b, b\<lparr>m_ptr := m_ptr b + sz\<rparr>)"

definition claim_space :: "nat \<Rightarrow> FrameBuffer \<Rightarrow> FrameBuffer" where
  "claim_space sz b = b\<lparr>m_ptr := m_ptr b + sz\<rparr>"

text \<open>The stores made through a pointer that \<^verbatim>\<open>get_space\<close> returned
  (\<^verbatim>\<open>memcpy\<close>, or a loop of \<^verbatim>\<open>ptr[i] = ...\<close>): one byte after the other from
  offset \<open>off\<close>, each of them inside the vector or else undefined.\<close>

fun store_bytes :: "nat \<Rightarrow> bytes \<Rightarrow> FrameBuffer \<Rightarrow> FrameBuffer option" where
  "store_bytes off [] b = Some b"
| "store_bytes off (x # xs) b =
     (if off < capacity b
      then store_bytes (off + 1) xs (b\<lparr>m_buf := (m_buf b)[off := x]\<rparr>)
      else None)"

text \<open>\<^verbatim>\<open>push_back(const View&)\<close> and \<^verbatim>\<open>push_back(const std::string_view&)\<close>
  have the same body.\<close>

definition push_back_view :: "bytes \<Rightarrow> FrameBuffer \<Rightarrow> FrameBuffer option" where
  "push_back_view v b =
     (case get_space (length v) (ensure_extra_space (length v) b) of
        (off, b1) \<Rightarrow> store_bytes off v b1)"

text \<open>\<^verbatim>\<open>view<std::string_view>()\<close> and \<^verbatim>\<open>view<View>()\<close>: the first \<open>m_ptr\<close>
  bytes.\<close>

definition view :: "FrameBuffer \<Rightarrow> bytes" where
  "view b = take (m_ptr b) (m_buf b)"

text \<open>\<^verbatim>\<open>size()\<close>: the write cursor.\<close>

definition FrameBuffer_size :: "FrameBuffer \<Rightarrow> nat" where
  "FrameBuffer_size b = m_ptr b"

subsection \<open>Frame and its serialisation\<close>

text \<open>\<^verbatim>\<open>enum class Opcode : uint8_t\<close>. The parser casts any nibble to it, so a
  value of the type is a byte; the enumerators are named constants.\<close>

type_synonym Opcode = u8

definition CONTINUATION :: Opcode where "CONTINUATION = 0x0"
definition TEXT :: Opcode where "TEXT = 0x1"
definition BINARY :: Opcode where "BINARY = 0x2"
definition CLOSE :: Opcode where "CLOSE = 0x8"
definition PING :: Opcode where "PING = 0x9"
definition PONG :: Opcode where "PONG = 0xA"
definition UNKNOWN :: Opcode where "UNKNOWN = 0xB"

text \<open>The field \<^verbatim>\<open>mask\<close> is \<open>mask_flag\<close> here (\<open>mask\<close> is a constant of the
  word library). \<^verbatim>\<open>std::array<uint8_t, 4> masking_key\<close> is a list of four bytes.\<close>

record Frame =
  fin :: bool
  mask_flag :: bool
  opcode :: Opcode
  masking_key :: bytes
  payload :: bytes

text \<open>\<^verbatim>\<open>Frame::construct(FrameBuffer&)\<close>. \<open>payload_length\<close> is the
  \<^verbatim>\<open>uint64_t\<close> copy of \<^verbatim>\<open>payload.length()\<close>; its shifts and masks are those
  of the number.\<close>

definition Frame_construct :: "Frame \<Rightarrow> FrameBuffer \<Rightarrow> FrameBuffer option" where
  "Frame_construct f buf0 = do {
     let buf = ensure_fit (length (payload f) + 14 + 100) (FrameBuffer_reset buf0);
     buf \<leftarrow> push_back ((if fin f then 0x80 else 0x00) OR (opcode f AND 0x0F)) buf;
     let mask_bit = (if mask_flag f then 0x80 else 0x00 :: u8);
     let payload_length = length (payload f);
     buf \<leftarrow>
       (if payload_length < 126 then
          push_back (mask_bit OR of_nat payload_length) buf
        else if payload_length \<le> 0xFFFF then do {
          buf \<leftarrow> push_back (mask_bit OR 126) buf;
          buf \<leftarrow> push_back (of_nat (drop_bit 8 payload_length AND 0xFF)) buf;
          push_back (of_nat (payload_length AND 0xFF)) buf
        } else do {
          buf \<leftarrow> push_back (mask_bit OR 127) buf;
          case get_space 8 buf of (ptr, buf) \<Rightarrow>
            store_bytes ptr
              (map (\<lambda>i. of_nat (drop_bit (8 * i) payload_length AND 0xFF)) (rev [0..<8])) buf
        });
     if mask_flag f then
       (case get_space 4 buf of (kptr, buf) \<Rightarrow> do {
          buf \<leftarrow> store_bytes kptr (map (\<lambda>i. masking_key f ! i) [0..<4]) buf;
          case get_space payload_length buf of (ptr, buf) \<Rightarrow>
            store_bytes ptr
              (map (\<lambda>i. payload f ! i XOR masking_key f ! (i mod 4)) [0..<payload_length]) buf
        })
     else
       (case get_space payload_length buf of (ptr, buf) \<Rightarrow> store_bytes ptr (payload f) buf)
   }"

subsection \<open>FrameFactory\<close>

text \<open>\<^verbatim>\<open>RandomCache<8>\<close>: 32 cached bytes, handed out four at a time. The two
  seeds come from \<^verbatim>\<open>device_random()\<close> and are parameters here.\<close>

record RandomCache =
  m_random :: XorShift128Plus
  m_cache :: bytes
  m_cache_ptr :: nat

definition fill_cache :: "RandomCache \<Rightarrow> RandomCache" where
  "fill_cache c =
     (case fill_bytes (8 * 4) (m_random c) of
        (bs, g) \<Rightarrow> c\<lparr>m_random := g, m_cache := bs, m_cache_ptr := 0\<rparr>)"

definition RandomCache_init :: "u64 \<Rightarrow> u64 \<Rightarrow> RandomCache" where
  "RandomCache_init seed1 seed2 =
     fill_cache \<lparr>m_random = XorShift128Plus_init seed1 seed2,
                 m_cache = replicate (8 * 4) 0, m_cache_ptr = 0\<rparr>"

text \<open>\<^verbatim>\<open>get\<close> copies the four bytes \<open>m_cache[m_cache_ptr .. m_cache_ptr + 3]\<close>
  into the key.\<close>

definition RandomCache_get :: "RandomCache \<Rightarrow> bytes \<times> RandomCache" where
  "RandomCache_get c =
     (let c1 = (if 8 * 4 \<le> m_cache_ptr c then fill_cache c else c)
      in (map (\<lambda>k. m_cache c1 ! (m_cache_ptr c1 + k)) [0..<4],
          c1\<lparr>m_cache_ptr := m_cache_ptr c1 + 4\<rparr>))"

text \<open>The members \<^verbatim>\<open>m_buf\<close> and \<^verbatim>\<open>m_random\<close> of the factory are
  \<open>factory_buf\<close> and \<open>factory_random\<close>.\<close>

record FrameFactory =
  factory_buf :: FrameBuffer
  factory_random :: RandomCache

definition FrameFactory_init :: "u64 \<Rightarrow> u64 \<Rightarrow> nat \<Rightarrow> FrameFactory" where
  "FrameFactory_init seed1 seed2 initial_capacity =
     \<lparr>factory_buf = FrameBuffer_init initial_capacity,
      factory_random = RandomCache_init seed1 seed2\<rparr>"

datatype error = PayloadTooLarge

text \<open>\<^verbatim>\<open>FrameFactory::construct\<close>. The local \<^verbatim>\<open>Frame frame\<close> is not
  initialised; its key is only assigned, and only read, when \<open>mask\<close> is set, and is
  four zero bytes here otherwise. The result is the returned \<^verbatim>\<open>string_view\<close>, as
  the bytes it shows, and the factory after the call.\<close>

definition FrameFactory_construct ::
  "bool \<Rightarrow> Opcode \<Rightarrow> bool \<Rightarrow> bytes \<Rightarrow> FrameFactory \<Rightarrow> (bytes \<times> FrameFactory) option" where
  "FrameFactory_construct fin_arg opcode_arg mask_arg payload_arg fac =
     (case (if mask_arg then RandomCache_get (factory_random fac)
            else (replicate 4 0, factory_random fac)) of
        (key, rc) \<Rightarrow> do {
          let frame = \<lparr>fin = fin_arg, mask_flag = mask_arg, opcode = opcode_arg,
                        masking_key = key, payload = payload_arg\<rparr>;
          buf \<leftarrow> Frame_construct frame (factory_buf fac);
          Some (view buf, \<lparr>factory_buf = buf, factory_random = rc\<rparr>)
        })"

definition text_frame :: "bool \<Rightarrow> bool \<Rightarrow> bytes \<Rightarrow> FrameFactory \<Rightarrow> (bytes \<times> FrameFactory) option" where
  "text_frame fin_arg mask_arg payload_arg fac =
     FrameFactory_construct fin_arg TEXT mask_arg payload_arg fac"

definition binary_frame :: "bool \<Rightarrow> bool \<Rightarrow> bytes \<Rightarrow> FrameFactory \<Rightarrow> (bytes \<times> FrameFactory) option" where
  "binary_frame fin_arg mask_arg payload_arg fac =
     FrameFactory_construct fin_arg BINARY mask_arg payload_arg fac"

text \<open>\<^verbatim>\<open>ping\<close>, \<^verbatim>\<open>pong\<close>, \<^verbatim>\<open>close\<close>: the throw leaves before anything
  of the factory is touched, so the factory comes back as it was.\<close>

definition ping :: "bool \<Rightarrow> bytes \<Rightarrow> FrameFactory \<Rightarrow> ((error + bytes) \<times> FrameFactory) option" where
  "ping mask_arg payload_arg fac =
     (if 125 < length payload_arg then Some (Inl PayloadTooLarge, fac)
      else map_option (\<lambda>(v, fac'). (Inr v, fac'))
             (FrameFactory_construct True PING mask_arg payload_arg fac))"

definition pong :: "bool \<Rightarrow> bytes \<Rightarrow> FrameFactory \<Rightarrow> ((error + bytes) \<times> FrameFactory) option" where
  "pong mask_arg payload_arg fac =
     (if 125 < length payload_arg then Some (Inl PayloadTooLarge, fac)
      else map_option (\<lambda>(v, fac'). (Inr v, fac'))
             (FrameFactory_construct True PONG mask_arg payload_arg fac))"

definition close :: "bool \<Rightarrow> bytes \<Rightarrow> FrameFactory \<Rightarrow> ((error + bytes) \<times> FrameFactory) option" where
  "close mask_arg payload_arg fac =
     (if 125 < length payload_arg then Some (Inl PayloadTooLarge, fac)
      else map_option (\<lambda>(v, fac'). (Inr v, fac'))
             (FrameFactory_construct True CLOSE mask_arg payload_arg fac))"

subsection \<open>FrameParser\<close>

datatype ParseStage =
    FIN_BIT
  | OPCODE
  | MASK_BIT
  | PAYLOAD_LEN
  | EXTENDED_PAYLOAD_LEN_16
  | EXTENDED_PAYLOAD_LEN_64
  | MASKING_KEY
  | PAYLOAD_DATA
  | DONE

text \<open>The parser's own cursor \<^verbatim>\<open>m_ptr\<close> is \<open>parse_ptr\<close> here; \<open>m_ptr\<close> is the
  write cursor of the buffer.\<close>

record FrameParser =
  m_parse_stage :: ParseStage
  m_frame :: Frame
  m_frame_buffer :: FrameBuffer
  m_payload_len :: u64
  parse_ptr :: nat

text \<open>\<^verbatim>\<open>m_frame = {}\<close>: the value-initialised frame.\<close>

definition Frame_empty :: Frame where
  "Frame_empty = \<lparr>fin = False, mask_flag = False, opcode = 0,
                   masking_key = replicate 4 0, payload = []\<rparr>"

text \<open>\<^verbatim>\<open>FrameParser() {}\<close> leaves \<^verbatim>\<open>m_frame\<close> default-initialised: its flags,
  opcode and key are indeterminate, its payload view is empty. The indeterminate
  frame is the parameter \<open>f0\<close>.\<close>

definition FrameParser_init :: "Frame \<Rightarrow> FrameParser" where
  "FrameParser_init f0 =
     \<lparr>m_parse_stage = FIN_BIT, m_frame = f0\<lparr>payload := []\<rparr>,
      m_frame_buffer = FrameBuffer_init 4096, m_payload_len = 0, parse_ptr = 0\<rparr>"

text \<open>\<^verbatim>\<open>remaining()\<close> is a difference of two \<^verbatim>\<open>size_t\<close>: it wraps when the
  parse cursor is ahead of the write cursor.\<close>

definition remaining :: "FrameParser \<Rightarrow> nat" where
  "remaining p =
     (if parse_ptr p \<le> FrameBuffer_size (m_frame_buffer p)
      then FrameBuffer_size (m_frame_buffer p) - parse_ptr p
      else 2 ^ 64 - (parse_ptr p - FrameBuffer_size (m_frame_buffer p)))"

text \<open>\<^verbatim>\<open>read()\<close> dereferences \<^verbatim>\<open>head() + m_ptr\<close>; every caller has compared
  \<^verbatim>\<open>remaining()\<close> first.\<close>

definition read :: "FrameParser \<Rightarrow> u8" where
  "read p = m_buf (m_frame_buffer p) ! parse_ptr p"

definition consume :: "FrameParser \<Rightarrow> u8 \<times> FrameParser" where
  "consume p = (read p, p\<lparr>parse_ptr := parse_ptr p + 1\<rparr>)"

definition check_fin_bit :: "FrameParser \<Rightarrow> FrameParser" where
  "check_fin_bit p =
     (if m_parse_stage p \<noteq> FIN_BIT \<or> remaining p = 0 then p
      else p\<lparr>m_frame := (m_frame p)\<lparr>fin := (read p AND 0x80 \<noteq> 0)\<rparr>,
             m_parse_stage := OPCODE\<rparr>)"

definition check_opcode :: "FrameParser \<Rightarrow> FrameParser" where
  "check_opcode p =
     (if m_parse_stage p \<noteq> OPCODE \<or> remaining p = 0 then p
      else (case consume p of (b, p1) \<Rightarrow>
              p1\<lparr>m_frame := (m_frame p1)\<lparr>opcode := b AND 0x0F\<rparr>,
                  m_parse_stage := MASK_BIT\<rparr>))"

definition check_mask_bit :: "FrameParser \<Rightarrow> FrameParser" where
  "check_mask_bit p =
     (if m_parse_stage p \<noteq> MASK_BIT \<or> remaining p = 0 then p
      else p\<lparr>m_frame := (m_frame p)\<lparr>mask_flag := (read p AND 0x80 \<noteq> 0)\<rparr>,
             m_parse_stage := PAYLOAD_LEN\<rparr>)"

definition after_length :: "FrameParser \<Rightarrow> ParseStage" where
  "after_length p = (if mask_flag (m_frame p) then MASKING_KEY else PAYLOAD_DATA)"

definition check_payload_len :: "FrameParser \<Rightarrow> FrameParser" where
  "check_payload_len p =
     (if m_parse_stage p \<noteq> PAYLOAD_LEN \<or> remaining p = 0 then p
      else (case consume p of (b, p1) \<Rightarrow>
              (let len = b AND 0x7F in
               if len = 126 then p1\<lparr>m_parse_stage := EXTENDED_PAYLOAD_LEN_16\<rparr>
               else if len = 127 then p1\<lparr>m_parse_stage := EXTENDED_PAYLOAD_LEN_64\<rparr>
               else p1\<lparr>m_payload_len := ucast len, m_parse_stage := after_length p1\<rparr>)))"

text \<open>\<^verbatim>\<open>uint64_t left = consume(); uint64_t right = consume();\<close>: both bytes are
  widened to 64 bits before the shift.\<close>

definition check_extended_payload_len_16 :: "FrameParser \<Rightarrow> FrameParser" where
  "check_extended_payload_len_16 p =
     (if m_parse_stage p \<noteq> EXTENDED_PAYLOAD_LEN_16 \<or> remaining p < 2 then p
      else (case consume p of (left, p1) \<Rightarrow>
             (case consume p1 of (right, p2) \<Rightarrow>
                p2\<lparr>m_payload_len := push_bit 8 (ucast left :: u64) OR ucast right,
                    m_parse_stage := after_length p2\<rparr>)))"

text \<open>
  \<^verbatim>\<open>m_payload_len |= consume() << 8 * i\<close>: the byte that \<^verbatim>\<open>consume()\<close> returns
  is promoted to \<^verbatim>\<open>int\<close>, 32 bits wide, and shifted as an \<^verbatim>\<open>int\<close>; the
  \<^verbatim>\<open>int\<close> result is then converted to \<^verbatim>\<open>uint64_t\<close>, which extends its sign
  bit. \<open>shl_int\<close> is that shift. For a count of 32 or more, which C++ leaves undefined,
  it takes the count modulo 32, as the 32-bit shift instructions of x86-64 and
  AArch64 do; a zero byte shifts to zero under any reading.
\<close>

definition shl_int :: "32 word \<Rightarrow> nat \<Rightarrow> 32 word" where
  "shl_int x n = push_bit (n mod 32) x"

text \<open>The loop \<^verbatim>\<open>for (int i = 7; i >= 0; i--)\<close>: the call with \<open>Suc i\<close> is the
  iteration with loop variable \<open>i\<close>.\<close>

fun payload_len_64_loop :: "nat \<Rightarrow> FrameParser \<Rightarrow> FrameParser" where
  "payload_len_64_loop 0 p = p"
| "payload_len_64_loop (Suc i) p =
     (case consume p of (b, p1) \<Rightarrow>
        payload_len_64_loop i
          (p1\<lparr>m_payload_len := m_payload_len p1 OR scast (shl_int (ucast b) (8 * i))\<rparr>))"

definition check_extended_payload_len_64 :: "FrameParser \<Rightarrow> FrameParser" where
  "check_extended_payload_len_64 p =
     (if m_parse_stage p \<noteq> EXTENDED_PAYLOAD_LEN_64 \<or> remaining p < 8 then p
      else (let p1 = payload_len_64_loop 8 (p\<lparr>m_payload_len := 0\<rparr>)
            in p1\<lparr>m_parse_stage := after_length p1\<rparr>))"

text \<open>The loop \<^verbatim>\<open>m_frame.masking_key[i] = consume()\<close> for \<open>i = 0..3\<close> assigns
  all four elements of the array: element \<open>i\<close> is the byte at \<open>m_ptr + i\<close>.\<close>

definition check_masking_key :: "FrameParser \<Rightarrow> FrameParser" where
  "check_masking_key p =
     (if m_parse_stage p \<noteq> MASKING_KEY \<or> remaining p < 4 then p
      else p\<lparr>m_frame := (m_frame p)\<lparr>masking_key :=
                  map (\<lambda>i. m_buf (m_frame_buffer p) ! (parse_ptr p + i)) [0..<4]\<rparr>,
             parse_ptr := parse_ptr p + 4,
             m_parse_stage := PAYLOAD_DATA\<rparr>)"

text \<open>The payload is a \<^verbatim>\<open>string_view\<close> of \<^verbatim>\<open>m_payload_len\<close> bytes at
  \<^verbatim>\<open>head() + m_ptr\<close>: here the bytes it shows when the frame is returned.\<close>

definition check_payload_data :: "FrameParser \<Rightarrow> FrameParser" where
  "check_payload_data p =
     (if m_parse_stage p \<noteq> PAYLOAD_DATA \<or> remaining p < unat (m_payload_len p) then p
      else if m_payload_len p = 0 then p\<lparr>m_parse_stage := DONE\<rparr>
      else p\<lparr>m_frame := (m_frame p)\<lparr>payload :=
                  take (unat (m_payload_len p)) (drop (parse_ptr p) (m_buf (m_frame_buffer p)))\<rparr>,
             parse_ptr := parse_ptr p + unat (m_payload_len p),
             m_parse_stage := DONE\<rparr>)"

definition is_done :: "FrameParser \<Rightarrow> bool" where
  "is_done p = (m_parse_stage p = DONE)"

text \<open>The eight stage checks of \<^verbatim>\<open>parse()\<close>, in its order.\<close>

definition parse_stages :: "FrameParser \<Rightarrow> FrameParser" where
  "parse_stages p =
     check_payload_data (check_masking_key (check_extended_payload_len_64
       (check_extended_payload_len_16 (check_payload_len (check_mask_bit
         (check_opcode (check_fin_bit p)))))))"

definition parse :: "FrameParser \<Rightarrow> Frame option \<times> FrameParser" where
  "parse p =
     (let p1 = parse_stages p
      in if \<not> is_done p1 then (None, p1) else (Some (m_frame p1), p1))"

text \<open>
  \<^verbatim>\<open>reset()\<close> pushes the view \<^verbatim>\<open>previous\<close> of the unparsed bytes back into
  the buffer it points into. \<open>copy_within\<close> is that \<^verbatim>\<open>memcpy\<close> with source and
  destination in the same vector, bytes copied in ascending order, every read and
  write inside the vector or else \<open>None\<close>. The two regions overlap when more bytes
  are left over than were parsed; the C library leaves \<^verbatim>\<open>memcpy\<close> on overlapping
  regions undefined, and the model takes the ascending copy, which for a destination
  below the source moves every byte before it is overwritten.
\<close>

fun copy_within :: "nat \<Rightarrow> nat \<Rightarrow> nat \<Rightarrow> FrameBuffer \<Rightarrow> FrameBuffer option" where
  "copy_within dst src 0 b = Some b"
| "copy_within dst src (Suc n) b =
     (if dst < capacity b \<and> src < capacity b
      then copy_within (dst + 1) (src + 1) n (b\<lparr>m_buf := (m_buf b)[dst := m_buf b ! src]\<rparr>)
      else None)"

text \<open>\<^verbatim>\<open>push_back(const View&)\<close> for a view of \<open>n\<close> bytes at offset \<open>src\<close> of the
  buffer's own storage.\<close>

definition push_back_own_view :: "nat \<Rightarrow> nat \<Rightarrow> FrameBuffer \<Rightarrow> FrameBuffer option" where
  "push_back_own_view src n b =
     (case get_space n (ensure_extra_space n b) of
        (off, b1) \<Rightarrow> copy_within off src n b1)"

definition FrameParser_reset :: "FrameParser \<Rightarrow> FrameParser option" where
  "FrameParser_reset p = do {
     buf \<leftarrow> (if 0 < remaining p
             then push_back_own_view (parse_ptr p) (remaining p)
                    (FrameBuffer_reset (m_frame_buffer p))
             else Some (FrameBuffer_reset (m_frame_buffer p)));
     Some (p\<lparr>m_frame_buffer := buf, parse_ptr := 0, m_frame := Frame_empty,
             m_payload_len := 0, m_parse_stage := FIN_BIT\<rparr>)
   }"

definition clear :: "FrameParser \<Rightarrow> FrameParser" where
  "clear p = p\<lparr>m_frame_buffer := FrameBuffer_reset (m_frame_buffer p), parse_ptr := 0,
               m_frame := Frame_empty, m_payload_len := 0, m_parse_stage := FIN_BIT\<rparr>"

text \<open>\<^verbatim>\<open>update(const FrameBuffer::View&)\<close> and
  \<^verbatim>\<open>update(const std::string_view&)\<close> have the same body.\<close>

definition update :: "bytes \<Rightarrow> FrameParser \<Rightarrow> (Frame option \<times> FrameParser) option" where
  "update v p = do {
     p1 \<leftarrow> (if is_done p then FrameParser_reset p else Some p);
     if length v \<noteq> 0 then do {
       buf \<leftarrow> push_back_view v (m_frame_buffer p1);
       let p2 = p1\<lparr>m_frame_buffer := buf\<rparr>;
       if remaining p2 = 0 then Some (None, p2) else Some (parse p2)
     }
     else if m_parse_stage p1 \<noteq> FIN_BIT then Some (None, p1)
     else if remaining p1 = 0 then Some (None, p1)
     else Some (parse p1)
   }"

text \<open>\<^verbatim>\<open>update(bool new_data)\<close>.\<close>

definition update_flag :: "bool \<Rightarrow> FrameParser \<Rightarrow> (Frame option \<times> FrameParser) option" where
  "update_flag new_data p = do {
     p1 \<leftarrow> (if is_done p then FrameParser_reset p else Some p);
     if \<not> new_data \<and> m_parse_stage p1 \<noteq> FIN_BIT then Some (None, p1)
     else if remaining p1 = 0 then Some (None, p1)
     else Some (parse p1)
   }"

subsection \<open>Definitions used in the statements and proofs\<close>

text \<open>The buffer after \<open>xs\<close> was written at the cursor.\<close>

definition appended :: "FrameBuffer \<Rightarrow> bytes \<Rightarrow> FrameBuffer" where
  "appended b xs =
     b\<lparr>m_buf := take (m_ptr b) (m_buf b) @ xs @ drop (m_ptr b + length xs) (m_buf b),
       m_ptr := m_ptr b + length xs\<rparr>"

text \<open>The wire image of a frame, as the serialiser lays it out: first byte, length
  bytes, then key and masked payload, or the plain payload.\<close>

definition length_bytes :: "bool \<Rightarrow> nat \<Rightarrow> bytes" where
  "length_bytes m n =
     (if n < 126 then [(if m then 0x80 else 0x00) OR of_nat n]
      else if n \<le> 0xFFFF then
        [(if m then 0x80 else 0x00) OR 126, of_nat (drop_bit 8 n AND 0xFF), of_nat (n AND 0xFF)]
      else ((if m then 0x80 else 0x00) OR 127) #
           map (\<lambda>i. of_nat (drop_bit (8 * i) n AND 0xFF)) (rev [0..<8]))"

definition payload_bytes :: "Frame \<Rightarrow> bytes" where
  "payload_bytes f =
     (if mask_flag f then
        map (\<lambda>i. masking_key f ! i) [0..<4] @
        map (\<lambda>i. payload f ! i XOR masking_key f ! (i mod 4)) [0..<length (payload f)]
      else payload f)"

definition frame_bytes :: "Frame \<Rightarrow> bytes" where
  "frame_bytes f =
     ((if fin f then 0x80 else 0x00) OR (opcode f AND 0x0F)) #
     length_bytes (mask_flag f) (length (payload f)) @ payload_bytes f"

text \<open>The ASCII bytes of "Hello World".\<close>

definition hello_world :: bytes where
  "hello_world = [0x48, 0x65, 0x6C, 0x6C, 0x6F, 0x20, 0x57, 0x6F, 0x72, 0x6C, 0x64]"

text \<open>The parser's structural invariant: the parse cursor is not ahead of the write
  cursor, and the write cursor is inside the vector.\<close>

definition pinv :: "FrameParser \<Rightarrow> bool" where
  "pinv p = (parse_ptr p \<le> m_ptr (m_frame_buffer p) \<and>
             m_ptr (m_frame_buffer p) \<le> capacity (m_frame_buffer p))"

text \<open>The public operations of a parser, and a caller that performs a sequence of
  them.\<close>

datatype parser_op = Update bytes | Update_flag bool | Clear

fun run_op :: "parser_op \<Rightarrow> FrameParser \<Rightarrow> FrameParser option" where
  "run_op (Update v) p = map_option snd (update v p)"
| "run_op (Update_flag new_data) p = map_option snd (update_flag new_data p)"
| "run_op Clear p = Some (clear p)"

fun run_ops :: "parser_op list \<Rightarrow> FrameParser \<Rightarrow> FrameParser option" where
  "run_ops [] p = Some p"
| "run_ops (x # xs) p = (case run_op x p of None \<Rightarrow> None | Some p1 \<Rightarrow> run_ops xs p1)"

text \<open>What the eight iterations of \<open>payload_len_64_loop\<close> leave in
  \<open>m_payload_len\<close>, as a function of the eight length bytes.\<close>

definition decode_len64 :: "bytes \<Rightarrow> u64" where
  "decode_len64 es =
     scast (shl_int (ucast (es ! 0)) 56) OR scast (shl_int (ucast (es ! 1)) 48) OR
     scast (shl_int (ucast (es ! 2)) 40) OR scast (shl_int (ucast (es ! 3)) 32) OR
     scast (shl_int (ucast (es ! 4)) 24) OR scast (shl_int (ucast (es ! 5)) 16) OR
     scast (shl_int (ucast (es ! 6)) 8) OR scast (shl_int (ucast (es ! 7)) 0)"

text \<open>The payload as it travels: XORed with the key when the frame is masked.\<close>

definition wire_payload :: "Frame \<Rightarrow> bytes" where
  "wire_payload f =
     (if mask_flag f
      then map (\<lambda>i. payload f ! i XOR masking_key f ! (i mod 4)) [0..<length (payload f)]
      else payload f)"

text \<open>The value the length stages leave in \<open>m_payload_len\<close>, as a function of
  the length bytes (second wire byte and extension).\<close>

definition decoded_len :: "bytes \<Rightarrow> u64" where
  "decoded_len lb =
     (if hd lb AND 0x7F = 126 then push_bit 8 (ucast (lb ! 1) :: u64) OR ucast (lb ! 2)
      else if hd lb AND 0x7F = 127 then decode_len64 (take 8 (tl lb))
      else ucast (hd lb AND 0x7F))"

text \<open>The frame the parser returns for the wire image of \<open>f\<close>: the payload still
  masked, and the key of the parser's previous frame \<open>g\<close> when \<open>f\<close> is not masked.\<close>

definition decoded_frame :: "Frame \<Rightarrow> Frame \<Rightarrow> Frame" where
  "decoded_frame f g =
     \<lparr>fin = fin f, mask_flag = mask_flag f, opcode = opcode f AND 0x0F,
      masking_key = (if mask_flag f then map (\<lambda>i. masking_key f ! i) [0..<4]
                     else masking_key g),
      payload = wire_payload f\<rparr>"

text \<open>The accumulator of a new parser after its first chunk.\<close>

definition fresh_buffer :: "bytes \<Rightarrow> FrameBuffer" where
  "fresh_buffer v = appended (ensure_extra_space (length v) (FrameBuffer_init 4096)) v"

text \<open>A caller that hands the chunks to \<open>update\<close> one call after the other: the
  results of the calls, in order.\<close>

fun feed :: "bytes list \<Rightarrow> FrameParser \<Rightarrow> Frame option list option" where
  "feed [] p = Some []"
| "feed (c # cs) p =
     (case update c p of None \<Rightarrow> None
      | Some (r, p') \<Rightarrow> map_option ((#) r) (feed cs p'))"

text \<open>The accumulator after \<open>push_back\<close> of a chunk.\<close>

definition pushed :: "FrameBuffer \<Rightarrow> bytes \<Rightarrow> FrameBuffer" where
  "pushed B v = appended (ensure_extra_space (length v) B) v"

text \<open>The position of a stage in the order of \<open>parse\<close>, the number of bytes a stage
  waits for, and a buffer that shows the bytes of another and possibly more.\<close>

fun rank :: "ParseStage \<Rightarrow> nat" where
  "rank FIN_BIT = 0"
| "rank OPCODE = 1"
| "rank MASK_BIT = 2"
| "rank PAYLOAD_LEN = 3"
| "rank EXTENDED_PAYLOAD_LEN_16 = 4"
| "rank EXTENDED_PAYLOAD_LEN_64 = 5"
| "rank MASKING_KEY = 6"
| "rank PAYLOAD_DATA = 7"
| "rank DONE = 8"

definition need :: "FrameParser \<Rightarrow> nat" where
  "need p = (case m_parse_stage p of
       EXTENDED_PAYLOAD_LEN_16 \<Rightarrow> 2
     | EXTENDED_PAYLOAD_LEN_64 \<Rightarrow> 8
     | MASKING_KEY \<Rightarrow> 4
     | PAYLOAD_DATA \<Rightarrow> unat (m_payload_len p)
     | DONE \<Rightarrow> 0
     | _ \<Rightarrow> 1)"

definition extends :: "FrameBuffer \<Rightarrow> FrameBuffer \<Rightarrow> bool" where
  "extends B B' = (m_ptr B \<le> m_ptr B' \<and> m_ptr B' \<le> capacity B' \<and>
               view B = take (m_ptr B) (view B'))"

text \<open>A stage check of rank \<open>k\<close>: it leaves other stages alone, does nothing while
  bytes are missing, and otherwise moves forward in a way that more bytes behind do
  not change.\<close>

definition stage_ok :: "nat \<Rightarrow> (FrameParser \<Rightarrow> FrameParser) \<Rightarrow> bool" where
  "stage_ok k c =
     ((\<forall>p. rank (m_parse_stage p) \<noteq> k \<longrightarrow> c p = p) \<and>
      (\<forall>p. rank (m_parse_stage p) = k \<longrightarrow> pinv p \<longrightarrow>
           m_ptr (m_frame_buffer p) < parse_ptr p + need p \<longrightarrow> c p = p) \<and>
      (\<forall>p. rank (m_parse_stage p) = k \<longrightarrow> pinv p \<longrightarrow>
           parse_ptr p + need p \<le> m_ptr (m_frame_buffer p) \<longrightarrow>
           k < rank (m_parse_stage (c p)) \<and> pinv (c p) \<and>
           m_frame_buffer (c p) = m_frame_buffer p \<and>
           (\<forall>B'. extends (m_frame_buffer p) B' \<longrightarrow>
                 c (p\<lparr>m_frame_buffer := B'\<rparr>) = (c p)\<lparr>m_frame_buffer := B'\<rparr>)))"

text \<open>A run of stage checks from rank \<open>k\<close> on that can be resumed: stopping on a
  buffer and continuing on a longer one gives what the longer one gives at once.\<close>

definition resumable :: "nat \<Rightarrow> (FrameParser \<Rightarrow> FrameParser) \<Rightarrow> bool" where
  "resumable k T =
     ((\<forall>p. rank (m_parse_stage p) < k \<longrightarrow> T p = p) \<and>
      (\<forall>p. m_parse_stage p = DONE \<longrightarrow> T p = p) \<and>
      (\<forall>p. pinv p \<longrightarrow> pinv (T p) \<and> m_frame_buffer (T p) = m_frame_buffer p \<and>
           rank (m_parse_stage p) \<le> rank (m_parse_stage (T p))) \<and>
      (\<forall>p B'. pinv p \<longrightarrow> extends (m_frame_buffer p) B' \<longrightarrow> k \<le> rank (m_parse_stage p) \<longrightarrow>
           T ((T p)\<lparr>m_frame_buffer := B'\<rparr>) = T (p\<lparr>m_frame_buffer := B'\<rparr>)))"

text \<open>The text frame "Hi" of the README's parsing example.\<close>

definition hi_frame :: Frame where
  "hi_frame = \<lparr>fin = True, mask_flag = False, opcode = TEXT, masking_key = [0, 0, 0, 0],
               payload = [0x48, 0x69]\<rparr>"

text \<open>Two returned frames that agree in everything a caller may read: the key only
  when the frame is masked.\<close>

definition same_frame :: "Frame \<Rightarrow> Frame \<Rightarrow> bool" where
  "same_frame a b =
     (fin a = fin b \<and> opcode a = opcode b \<and> mask_flag a = mask_flag b \<and>
      payload a = payload b \<and> (if mask_flag a then masking_key a = masking_key b else True))"

text \<open>Two parsers in the same place whose frames agree in the fields that the
  stages passed so far have written.\<close>

definition agree :: "nat \<Rightarrow> Frame \<Rightarrow> Frame \<Rightarrow> bool" where
  "agree k a b =
     (payload a = payload b \<and>
      (if 0 < k then fin a = fin b else True) \<and>
      (if 1 < k then opcode a = opcode b else True) \<and>
      (if 2 < k then mask_flag a = mask_flag b else True) \<and>
      (if 6 < k \<and> mask_flag a then masking_key a = masking_key b else True))"

definition alike :: "FrameParser \<Rightarrow> FrameParser \<Rightarrow> bool" where
  "alike p q =
     (m_parse_stage p = m_parse_stage q \<and> parse_ptr p = parse_ptr q \<and>
      m_payload_len p = m_payload_len q \<and> m_frame_buffer p = m_frame_buffer q \<and>
      agree (rank (m_parse_stage p)) (m_frame p) (m_frame q))"

text \<open>The frame that \<open>ping\<close>, \<open>pong\<close> and \<open>close\<close> hand to the serialiser: final,
  with the key that \<open>RandomCache_get\<close> draws next (read only when \<open>mask\<close> is set).\<close>

definition control_frame :: "Opcode \<Rightarrow> bool \<Rightarrow> bytes \<Rightarrow> FrameFactory \<Rightarrow> Frame" where
  "control_frame opc m pl fac =
     \<lparr>fin = True, mask_flag = m, opcode = opc,
      masking_key = fst (RandomCache_get (factory_random fac)), payload = pl\<rparr>"

text \<open>Two contents of the uninitialised \<open>m_frame\<close> of a new parser that differ in
  the key bytes.\<close>

definition init_frame_a :: Frame where
  "init_frame_a = \<lparr>fin = False, mask_flag = False, opcode = 0,
                    masking_key = [0xA7, 0xFC, 0x7F, 0x00], payload = []\<rparr>"

definition init_frame_b :: Frame where
  "init_frame_b = \<lparr>fin = False, mask_flag = False, opcode = 0,
                    masking_key = [0x9B, 0x7E, 0x55, 0x00], payload = []\<rparr>"

section \<open>The byte buffer\<close>

lemma store_bytes_Some:
  "off + length xs \<le> capacity b \<Longrightarrow>
   store_bytes off xs b =
     Some (b\<lparr>m_buf := take off (m_buf b) @ xs @ drop (off + length xs) (m_buf b)\<rparr>)"
proof (induction xs arbitrary: off b)
  case Nil
  then show ?case by simp
next
  case (Cons x xs)
  have "off < length (m_buf b)" using Cons.prems by (simp add: capacity_def)
  then have eq: "take (off + 1) ((m_buf b)[off := x]) = take off (m_buf b) @ [x]"
    by (simp add: take_Suc_conv_app_nth)
  show ?case using Cons.prems Cons.IH[of "off + 1" "b\<lparr>m_buf := (m_buf b)[off := x]\<rparr>"] eq
    by (simp add: capacity_def)
qed

lemma capacity_appended [simp]:
  "m_ptr b + length xs \<le> capacity b \<Longrightarrow> capacity (appended b xs) = capacity b"
  by (simp add: appended_def capacity_def)

lemma m_ptr_appended [simp]: "m_ptr (appended b xs) = m_ptr b + length xs"
  by (simp add: appended_def)

lemma view_appended [simp]:
  "m_ptr b \<le> capacity b \<Longrightarrow> view (appended b xs) = view b @ xs"
  by (simp add: appended_def view_def capacity_def)

lemma appended_Nil [simp]: "appended b [] = b"
  by (simp add: appended_def)

lemma appended_appended:
  "m_ptr b + length xs \<le> capacity b \<Longrightarrow>
   appended (appended b xs) ys = appended b (xs @ ys)"
  by (simp add: appended_def capacity_def ac_simps)

lemma push_back_appended:
  "m_ptr b < capacity b \<Longrightarrow> push_back x b = Some (appended b [x])"
  by (simp add: push_back_def appended_def capacity_def upd_conv_take_nth_drop)

lemma get_space_store_appended:
  "m_ptr b + length xs \<le> capacity b \<Longrightarrow>
   store_bytes (m_ptr b) xs (b\<lparr>m_ptr := m_ptr b + length xs\<rparr>) = Some (appended b xs)"
  by (simp add: store_bytes_Some capacity_def appended_def)

lemma store_after_get_space:
  "off = m_ptr b \<Longrightarrow> n = off + length xs \<Longrightarrow> off + length xs \<le> capacity b \<Longrightarrow>
   store_bytes off xs (b\<lparr>m_ptr := n\<rparr>) = Some (appended b xs)"
  by (simp add: get_space_store_appended)

lemma capacity_ensure_fit: "capacity (ensure_fit n b) = max n (capacity b)"
  by (simp add: ensure_fit_def capacity_def)

lemma m_ptr_ensure_fit [simp]: "m_ptr (ensure_fit n b) = m_ptr b"
  by (simp add: ensure_fit_def)

lemma view_ensure_fit [simp]:
  "m_ptr b \<le> capacity b \<Longrightarrow> view (ensure_fit n b) = view b"
  by (simp add: ensure_fit_def view_def capacity_def)

lemma capacity_FrameBuffer_init [simp]: "capacity (FrameBuffer_init c) = c"
  by (simp add: FrameBuffer_init_def capacity_def)

lemma m_ptr_FrameBuffer_init [simp]: "m_ptr (FrameBuffer_init c) = 0"
  by (simp add: FrameBuffer_init_def)

lemma push_back_view_appended:
  "push_back_view v b = Some (appended (ensure_extra_space (length v) b) v)"
  unfolding push_back_view_def get_space_def
  by (simp add: get_space_store_appended ensure_extra_space_def ensure_fit_def capacity_def)

text \<open>
  C6. The claim: a request above the capacity makes the capacity the larger of twice
  the old capacity and the request. The code resizes the vector to the request and
  nothing more, so the claim fails: a buffer of 4096 bytes asked to fit 4097 has
  capacity 4097 afterwards, not 8192.
\<close>

theorem ensure_fit_does_not_double:
  "capacity (FrameBuffer_init 4096) < 4097 \<and>
   capacity (ensure_fit 4097 (FrameBuffer_init 4096)) = 4097 \<and>
   capacity (ensure_fit 4097 (FrameBuffer_init 4096))
     \<noteq> max (2 * capacity (FrameBuffer_init 4096)) 4097"
  by (simp add: capacity_ensure_fit)

text \<open>
  C6, as amended. When \<open>ensure_fit\<close> is called with a size \<open>n\<close> above the current
  capacity, the new capacity is exactly \<open>n\<close>; when \<open>n\<close> is at most the capacity, the
  buffer is unchanged. The cursor and the bytes below the old capacity are kept in
  both cases.
\<close>

theorem ensure_fit_exact:
  "(capacity b < n \<longrightarrow> capacity (ensure_fit n b) = n) \<and>
   (n \<le> capacity b \<longrightarrow> ensure_fit n b = b) \<and>
   m_ptr (ensure_fit n b) = m_ptr b \<and>
   take (capacity b) (m_buf (ensure_fit n b)) = m_buf b"
  by (simp add: ensure_fit_def capacity_def)

theorem ensure_fit_exact_witness:
  "capacity (FrameBuffer_init 16) < 20 \<and> capacity (ensure_fit 20 (FrameBuffer_init 16)) = 20 \<and>
   8 \<le> capacity (FrameBuffer_init 16) \<and> ensure_fit 8 (FrameBuffer_init 16) = FrameBuffer_init 16"
  using ensure_fit_exact [of "FrameBuffer_init 16" 20] ensure_fit_exact [of "FrameBuffer_init 16" 8]
  by simp

section \<open>Serialisation\<close>

lemma length_length_bytes:
  "length (length_bytes m n) = (if n < 126 then 1 else if n \<le> 0xFFFF then 3 else 9)"
  by (simp add: length_bytes_def)

lemma length_payload_bytes:
  "length (payload_bytes f) = (if mask_flag f then 4 else 0) + length (payload f)"
  by (simp add: payload_bytes_def)

lemma length_frame_bytes:
  "length (frame_bytes f) =
     1 + (if length (payload f) < 126 then 1 else if length (payload f) \<le> 0xFFFF then 3 else 9)
       + (if mask_flag f then 4 else 0) + length (payload f)"
  by (simp add: frame_bytes_def length_length_bytes length_payload_bytes)

lemma Frame_construct_appended:
  "Frame_construct f buf0 =
     Some (appended (ensure_fit (length (payload f) + 14 + 100) (FrameBuffer_reset buf0))
             (frame_bytes f))"
proof -
  define b1 where "b1 = ensure_fit (length (payload f) + 14 + 100) (FrameBuffer_reset buf0)"
  have p1: "m_ptr b1 = 0" by (simp add: b1_def FrameBuffer_reset_def)
  have c1: "length (payload f) + 114 \<le> capacity b1"
    by (simp add: b1_def capacity_ensure_fit)
  show ?thesis
    unfolding Frame_construct_def b1_def[symmetric] Let_def frame_bytes_def
      length_bytes_def payload_bytes_def get_space_def
    using p1 c1
    by (simp add: push_back_appended store_after_get_space appended_appended)
qed

text \<open>
  C9. For every frame and every target buffer, \<open>Frame_construct\<close> returns a buffer:
  no unchecked \<open>push_back\<close> and no store behind \<open>get_space\<close> falls outside the
  vector. The vector was first made at least \<open>payload length + 114\<close> bytes long
  (its capacity is the larger of that and the old capacity); the cursor ends at
  \<open>1 + (1, 3 or 9) + (4 if masked) + payload length\<close>, which is at most
  \<open>payload length + 14\<close> and at most the capacity.
\<close>

theorem Frame_construct_in_bounds:
  "\<exists>b'. Frame_construct f buf0 = Some b' \<and>
        capacity b' = max (length (payload f) + 114) (capacity buf0) \<and>
        length (payload f) + 114 \<le> capacity b' \<and>
        m_ptr b' = 1 + (if length (payload f) < 126 then 1
                        else if length (payload f) \<le> 0xFFFF then 3 else 9)
                     + (if mask_flag f then 4 else 0) + length (payload f) \<and>
        m_ptr b' \<le> length (payload f) + 14 \<and>
        m_ptr b' \<le> capacity b'"
proof -
  let ?b1 = "ensure_fit (length (payload f) + 14 + 100) (FrameBuffer_reset buf0)"
  have p1: "m_ptr ?b1 = 0" by (simp add: FrameBuffer_reset_def)
  have c0: "capacity (FrameBuffer_reset buf0) = capacity buf0"
    by (simp add: FrameBuffer_reset_def capacity_def)
  have c1: "capacity ?b1 = max (length (payload f) + 114) (capacity buf0)"
    by (simp add: capacity_ensure_fit c0)
  have le: "length (frame_bytes f) \<le> length (payload f) + 14"
    by (simp add: length_frame_bytes)
  then have fit: "m_ptr ?b1 + length (frame_bytes f) \<le> capacity ?b1"
    using p1 c1 by simp
  have cap: "capacity (appended ?b1 (frame_bytes f)) = capacity ?b1"
    using fit by (rule capacity_appended)
  have ptr: "m_ptr (appended ?b1 (frame_bytes f)) = length (frame_bytes f)"
    using p1 by simp
  show ?thesis
    unfolding Frame_construct_appended
    using cap ptr c1 le by (simp add: length_frame_bytes)
qed

lemma FrameFactory_construct_eq:
  "FrameFactory_construct fi opc m pl fac =
     (case (if m then RandomCache_get (factory_random fac)
            else (replicate 4 0, factory_random fac)) of
        (key, rc) \<Rightarrow>
          Some (frame_bytes \<lparr>fin = fi, mask_flag = m, opcode = opc,
                             masking_key = key, payload = pl\<rparr>,
                \<lparr>factory_buf =
                   appended (ensure_fit (length pl + 14 + 100)
                               (FrameBuffer_reset (factory_buf fac)))
                     (frame_bytes \<lparr>fin = fi, mask_flag = m, opcode = opc,
                                   masking_key = key, payload = pl\<rparr>),
                 factory_random = rc\<rparr>))"
proof -
  have v: "view (appended (ensure_fit n (FrameBuffer_reset b)) xs) = xs" for n b xs
    by (simp add: FrameBuffer_reset_def view_def appended_def)
  show ?thesis
    unfolding FrameFactory_construct_def
    by (simp add: Frame_construct_appended v Let_def split: prod.splits)
qed

text \<open>
  C7. \<open>text\<close> with \<open>fin = true\<close>, \<open>mask = false\<close> and the payload "Hello World"
  returns, from any factory, exactly the 13 bytes \<open>0x81 0x0B\<close> and the 11 payload
  bytes.
\<close>

theorem text_hello_world:
  "map_option fst (text_frame True False hello_world fac) =
     Some [0x81, 0x0B, 0x48, 0x65, 0x6C, 0x6C, 0x6F, 0x20, 0x57, 0x6F, 0x72, 0x6C, 0x64]
   \<and> hello_world = map (\<lambda>c. of_nat (of_char c)) ''Hello World''"
  by (simp add: text_frame_def FrameFactory_construct_eq frame_bytes_def length_bytes_def
      payload_bytes_def hello_world_def TEXT_def)

section \<open>The control-frame constructors\<close>

lemma control_frame_bytes:
  "length pl \<le> 125 \<Longrightarrow>
   \<exists>fac'. FrameFactory_construct True opc m pl fac =
      Some (frame_bytes (control_frame opc m pl fac), fac')"
  by (cases m)
     (auto simp add: FrameFactory_construct_eq control_frame_def frame_bytes_def payload_bytes_def
        split: prod.splits)

lemma ping_1_2_masked:
  "frame_bytes (control_frame PING True [1, 2] (FrameFactory_init 1 2 4096))
     = [0x89, 0x82, 0x45, 0x00, 0x80, 0x00, 0x44, 0x02]"
  by code_simp

lemma pong_1_2_unmasked:
  "frame_bytes (control_frame PONG False [1, 2] fac) = [0x8A, 0x02, 0x01, 0x02]"
  by (simp add: control_frame_def frame_bytes_def length_bytes_def payload_bytes_def PONG_def)

lemma close_empty_unmasked:
  "frame_bytes (control_frame CLOSE False [] fac) = [0x88, 0x00]"
  by (simp add: control_frame_def frame_bytes_def length_bytes_def payload_bytes_def CLOSE_def)

text \<open>
  C4. \<open>ping\<close>, \<open>pong\<close> and \<open>close\<close> throw exactly when the payload is longer than
  125 bytes. When they throw, the factory, and with it its byte buffer, is the one
  the call started from. When the payload has at most 125 bytes they return the
  serialised frame: the wire image \<open>frame_bytes\<close> of the final frame with their
  opcode, the given mask flag and payload, and, when masked, the next key of the
  factory's random cache.
\<close>

theorem control_frames_payload_too_large:
  "((\<exists>fac'. ping m pl fac = Some (Inl PayloadTooLarge, fac')) \<longleftrightarrow> 125 < length pl) \<and>
   ((\<exists>fac'. pong m pl fac = Some (Inl PayloadTooLarge, fac')) \<longleftrightarrow> 125 < length pl) \<and>
   ((\<exists>fac'. close m pl fac = Some (Inl PayloadTooLarge, fac')) \<longleftrightarrow> 125 < length pl) \<and>
   (125 < length pl \<longrightarrow>
      ping m pl fac = Some (Inl PayloadTooLarge, fac) \<and>
      pong m pl fac = Some (Inl PayloadTooLarge, fac) \<and>
      close m pl fac = Some (Inl PayloadTooLarge, fac)) \<and>
   (length pl \<le> 125 \<longrightarrow>
      (\<exists>fac'. ping m pl fac = Some (Inr (frame_bytes (control_frame PING m pl fac)), fac')) \<and>
      (\<exists>fac'. pong m pl fac = Some (Inr (frame_bytes (control_frame PONG m pl fac)), fac')) \<and>
      (\<exists>fac'. close m pl fac = Some (Inr (frame_bytes (control_frame CLOSE m pl fac)), fac')))"
proof (cases "125 < length pl")
  case True
  then show ?thesis by (simp add: ping_def pong_def close_def)
next
  case False
  then have le: "length pl \<le> 125" by simp
  obtain f1 f2 f3 where
    "FrameFactory_construct True PING m pl fac
       = Some (frame_bytes (control_frame PING m pl fac), f1)"
    "FrameFactory_construct True PONG m pl fac
       = Some (frame_bytes (control_frame PONG m pl fac), f2)"
    "FrameFactory_construct True CLOSE m pl fac
       = Some (frame_bytes (control_frame CLOSE m pl fac), f3)"
    using control_frame_bytes [OF le, of PING m fac] control_frame_bytes [OF le, of PONG m fac]
      control_frame_bytes [OF le, of CLOSE m fac]
    by blast
  with False show ?thesis by (simp add: ping_def pong_def close_def)
qed

theorem control_frames_payload_too_large_witness:
  "125 < length (replicate 126 (0::u8)) \<and>
   ping False (replicate 126 0) (FrameFactory_init 1 2 4096)
     = Some (Inl PayloadTooLarge, FrameFactory_init 1 2 4096) \<and>
   pong False (replicate 126 0) (FrameFactory_init 1 2 4096)
     = Some (Inl PayloadTooLarge, FrameFactory_init 1 2 4096) \<and>
   close False (replicate 126 0) (FrameFactory_init 1 2 4096)
     = Some (Inl PayloadTooLarge, FrameFactory_init 1 2 4096) \<and>
   length [1, 2 :: u8] \<le> 125 \<and>
   (\<exists>fac'. ping True [1, 2] (FrameFactory_init 1 2 4096)
      = Some (Inr [0x89, 0x82, 0x45, 0x00, 0x80, 0x00, 0x44, 0x02], fac')) \<and>
   (\<exists>fac'. pong False [1, 2] (FrameFactory_init 1 2 4096)
      = Some (Inr [0x8A, 0x02, 0x01, 0x02], fac')) \<and>
   (\<exists>fac'. close False [] (FrameFactory_init 1 2 4096) = Some (Inr [0x88, 0x00], fac'))"
  using control_frames_payload_too_large
          [of False "replicate 126 0" "FrameFactory_init 1 2 4096"]
        control_frames_payload_too_large
          [of True "[1, 2]" "FrameFactory_init 1 2 4096"]
        control_frames_payload_too_large
          [of False "[1, 2]" "FrameFactory_init 1 2 4096"]
        control_frames_payload_too_large
          [of False "[]" "FrameFactory_init 1 2 4096"]
  by (simp add: ping_1_2_masked pong_1_2_unmasked close_empty_unmasked)

lemma hd_frame_bytes_fin:
  "hd (frame_bytes \<lparr>fin = True, mask_flag = m, opcode = opc, masking_key = k, payload = pl\<rparr>)
     = 0x80 OR (opc AND 0x0F)"
  by (simp add: frame_bytes_def)

lemma fin_bit_set: "(0x80 OR (opc AND 0x0F)) AND (0x80 :: u8) = 0x80"
  by (simp add: bit.conj_disj_distrib2 and.assoc)

text \<open>
  C10. Every frame that \<open>ping\<close>, \<open>pong\<close> or \<open>close\<close> returns is final: the returned
  bytes are not empty and their first byte has bit \<open>0x80\<close> set (it is \<open>0x89\<close>,
  \<open>0x8A\<close> and \<open>0x88\<close>). None of the three takes a \<open>fin\<close> argument.
\<close>

theorem control_frames_are_final:
  "(ping m pl fac = Some (Inr w, fac') \<longrightarrow> w \<noteq> [] \<and> hd w = 0x89 \<and> hd w AND 0x80 = 0x80) \<and>
   (pong m pl fac = Some (Inr w, fac') \<longrightarrow> w \<noteq> [] \<and> hd w = 0x8A \<and> hd w AND 0x80 = 0x80) \<and>
   (close m pl fac = Some (Inr w, fac') \<longrightarrow> w \<noteq> [] \<and> hd w = 0x88 \<and> hd w AND 0x80 = 0x80)"
  by (auto simp add: ping_def pong_def close_def FrameFactory_construct_eq frame_bytes_def
      PING_def PONG_def CLOSE_def split: if_splits prod.splits)

theorem control_frames_are_final_witness:
  "\<exists>w1 f1 w2 f2 w3 f3.
     ping False [] (FrameFactory_init 1 2 4096) = Some (Inr w1, f1) \<and>
     w1 \<noteq> [] \<and> hd w1 = 0x89 \<and> hd w1 AND 0x80 = 0x80 \<and>
     pong False [] (FrameFactory_init 1 2 4096) = Some (Inr w2, f2) \<and>
     w2 \<noteq> [] \<and> hd w2 = 0x8A \<and> hd w2 AND 0x80 = 0x80 \<and>
     close False [] (FrameFactory_init 1 2 4096) = Some (Inr w3, f3) \<and>
     w3 \<noteq> [] \<and> hd w3 = 0x88 \<and> hd w3 AND 0x80 = 0x80"
proof -
  obtain w1 f1 where 1: "ping False [] (FrameFactory_init 1 2 4096) = Some (Inr w1, f1)"
    by (simp add: ping_def FrameFactory_construct_eq)
  obtain w2 f2 where 2: "pong False [] (FrameFactory_init 1 2 4096) = Some (Inr w2, f2)"
    by (simp add: pong_def FrameFactory_construct_eq)
  obtain w3 f3 where 3: "close False [] (FrameFactory_init 1 2 4096) = Some (Inr w3, f3)"
    by (simp add: close_def FrameFactory_construct_eq)
  show ?thesis
    using control_frames_are_final [of False "[]" "FrameFactory_init 1 2 4096" w1 f1]
      control_frames_are_final [of False "[]" "FrameFactory_init 1 2 4096" w2 f2]
      control_frames_are_final [of False "[]" "FrameFactory_init 1 2 4096" w3 f3]
      1 2 3
    by blast
qed

section \<open>The parser's cursor invariant\<close>

lemma copy_within_Some:
  "dst \<le> src \<Longrightarrow> src + n \<le> capacity b \<Longrightarrow>
   copy_within dst src n b =
     Some (b\<lparr>m_buf := take dst (m_buf b) @ take n (drop src (m_buf b)) @ drop (dst + n) (m_buf b)\<rparr>)"
proof (induction n arbitrary: dst src b)
  case 0
  then show ?case by simp
next
  case (Suc n)
  let ?m = "m_buf b"
  let ?b' = "b\<lparr>m_buf := ?m[dst := ?m ! src]\<rparr>"
  have src: "src < length ?m" and dst: "dst < length ?m"
    using Suc.prems by (simp_all add: capacity_def)
  have t: "take (dst + 1) (?m[dst := ?m ! src]) = take dst ?m @ [?m ! src]"
    using dst by (simp add: take_Suc_conv_app_nth)
  have d1: "drop (src + 1) (?m[dst := ?m ! src]) = drop (src + 1) ?m"
    using Suc.prems by simp
  have d2: "drop (dst + 1 + n) (?m[dst := ?m ! src]) = drop (dst + 1 + n) ?m"
    by simp
  have tk: "take (Suc n) (drop src ?m) = ?m ! src # take n (drop (src + 1) ?m)"
    using src by (simp add: Cons_nth_drop_Suc [symmetric])
  have "copy_within (dst + 1) (src + 1) n ?b' =
     Some (?b'\<lparr>m_buf := take (dst + 1) (m_buf ?b') @ take n (drop (src + 1) (m_buf ?b')) @
                         drop (dst + 1 + n) (m_buf ?b')\<rparr>)"
    using Suc.prems by (intro Suc.IH) (simp_all add: capacity_def)
  then show ?case
    using src dst t d1 d2 tk by (simp add: capacity_def)
qed

lemma loop64_fields:
  "parse_ptr (payload_len_64_loop n p) = parse_ptr p + n \<and>
   m_frame_buffer (payload_len_64_loop n p) = m_frame_buffer p \<and>
   m_parse_stage (payload_len_64_loop n p) = m_parse_stage p \<and>
   m_frame (payload_len_64_loop n p) = m_frame p"
  by (induction n arbitrary: p) (simp_all add: consume_def)

lemma remaining_pinv: "pinv p \<Longrightarrow> remaining p = m_ptr (m_frame_buffer p) - parse_ptr p"
  by (simp add: pinv_def remaining_def FrameBuffer_size_def)

lemma pinv_check_fin_bit: "pinv p \<Longrightarrow> pinv (check_fin_bit p)"
  by (simp add: pinv_def check_fin_bit_def)
lemma pinv_check_opcode: "pinv p \<Longrightarrow> pinv (check_opcode p)"
  by (auto simp add: remaining_pinv check_opcode_def consume_def) (auto simp: pinv_def)
lemma pinv_check_mask_bit: "pinv p \<Longrightarrow> pinv (check_mask_bit p)"
  by (simp add: pinv_def check_mask_bit_def)
lemma pinv_check_payload_len: "pinv p \<Longrightarrow> pinv (check_payload_len p)"
  by (auto simp add: remaining_pinv check_payload_len_def consume_def Let_def) (auto simp: pinv_def)
lemma pinv_check_16: "pinv p \<Longrightarrow> pinv (check_extended_payload_len_16 p)"
  by (auto simp add: remaining_pinv check_extended_payload_len_16_def consume_def) (auto simp: pinv_def)
lemma pinv_check_64: "pinv p \<Longrightarrow> pinv (check_extended_payload_len_64 p)"
  by (auto simp add: remaining_pinv check_extended_payload_len_64_def Let_def)
     (auto simp: pinv_def loop64_fields)
lemma pinv_check_masking_key: "pinv p \<Longrightarrow> pinv (check_masking_key p)"
  by (auto simp add: remaining_pinv check_masking_key_def) (auto simp: pinv_def)
lemma pinv_check_payload_data: "pinv p \<Longrightarrow> pinv (check_payload_data p)"
  by (auto simp add: remaining_pinv check_payload_data_def) (auto simp: pinv_def)

lemma pinv_parse_stages: "pinv p \<Longrightarrow> pinv (parse_stages p)"
  unfolding parse_stages_def
  by (intro pinv_check_fin_bit pinv_check_opcode pinv_check_mask_bit pinv_check_payload_len
      pinv_check_16 pinv_check_64 pinv_check_masking_key pinv_check_payload_data)

lemma pinv_parse: "pinv p \<Longrightarrow> pinv (snd (parse p))"
  by (simp add: parse_def Let_def pinv_parse_stages)

lemma reset_Some:
  assumes "pinv p"
  shows "\<exists>b. FrameParser_reset p =
           Some (p\<lparr>m_frame_buffer := b, parse_ptr := 0, m_frame := Frame_empty,
                   m_payload_len := 0, m_parse_stage := FIN_BIT\<rparr>) \<and>
         m_ptr b = m_ptr (m_frame_buffer p) - parse_ptr p \<and>
         capacity b = capacity (m_frame_buffer p) \<and>
         view b = drop (parse_ptr p) (view (m_frame_buffer p))"
proof -
  let ?B = "m_frame_buffer p"
  let ?n = "m_ptr ?B - parse_ptr p"
  show ?thesis
  proof (cases "0 < ?n")
    case False
    then show ?thesis using assms
      by (intro exI [of _ "FrameBuffer_reset ?B"])
         (simp add: FrameParser_reset_def remaining_pinv FrameBuffer_reset_def capacity_def
          view_def pinv_def)
  next
    case True
    let ?R = "FrameBuffer_reset ?B"
    have cap: "?n \<le> capacity ?R" using assms
      by (auto simp add: pinv_def FrameBuffer_reset_def capacity_def)
    then have e: "ensure_extra_space ?n ?R = ?R"
      by (simp add: ensure_extra_space_def ensure_fit_def FrameBuffer_reset_def)
    have src: "parse_ptr p + ?n \<le> capacity (?R\<lparr>m_ptr := ?n\<rparr>)" using assms
      by (simp add: pinv_def FrameBuffer_reset_def capacity_def)
    have cw: "copy_within 0 (parse_ptr p) ?n (?R\<lparr>m_ptr := ?n\<rparr>) =
       Some ((?R\<lparr>m_ptr := ?n\<rparr>)\<lparr>m_buf := take 0 (m_buf (?R\<lparr>m_ptr := ?n\<rparr>)) @
               take ?n (drop (parse_ptr p) (m_buf (?R\<lparr>m_ptr := ?n\<rparr>))) @
               drop (0 + ?n) (m_buf (?R\<lparr>m_ptr := ?n\<rparr>))\<rparr>)"
      by (rule copy_within_Some [OF _ src]) simp
    have pb: "push_back_own_view (parse_ptr p) ?n ?R =
       Some (?B\<lparr>m_ptr := ?n, m_buf := take ?n (drop (parse_ptr p) (m_buf ?B)) @ drop ?n (m_buf ?B)\<rparr>)"
      unfolding push_back_own_view_def e get_space_def
      using cw by (simp add: FrameBuffer_reset_def)
    have len: "parse_ptr p + ?n \<le> length (m_buf ?B)" using assms
      by (simp add: pinv_def capacity_def)
    have vw: "take ?n (take ?n (drop (parse_ptr p) (m_buf ?B)) @ drop ?n (m_buf ?B)) =
         drop (parse_ptr p) (take (m_ptr ?B) (m_buf ?B))"
      using len assms by (simp add: pinv_def drop_take)
    show ?thesis using True assms pb vw len
      by (intro exI [of _ "?B\<lparr>m_ptr := ?n, m_buf := take ?n (drop (parse_ptr p) (m_buf ?B)) @ drop ?n (m_buf ?B)\<rparr>"])
         (simp add: FrameParser_reset_def remaining_pinv capacity_def view_def)
  qed
qed


lemma pinv_with_appended:
  "pinv p \<Longrightarrow>
   pinv (p\<lparr>m_frame_buffer := appended (ensure_extra_space (length v) (m_frame_buffer p)) v\<rparr>)"
  by (auto simp add: pinv_def ensure_extra_space_def appended_def capacity_def ensure_fit_def)

lemma pinv_init: "pinv (FrameParser_init f0)"
  by (simp add: pinv_def FrameParser_init_def)

lemma pinv_clear: "pinv (clear p)"
  by (simp add: pinv_def clear_def FrameBuffer_reset_def)

lemma update_unfold:
  assumes "(if is_done p then FrameParser_reset p else Some p) = Some p1"
  shows "update v p =
     Some (if v \<noteq> [] then
             (if remaining (p1\<lparr>m_frame_buffer :=
                     appended (ensure_extra_space (length v) (m_frame_buffer p1)) v\<rparr>) = 0
              then (None, p1\<lparr>m_frame_buffer :=
                     appended (ensure_extra_space (length v) (m_frame_buffer p1)) v\<rparr>)
              else parse (p1\<lparr>m_frame_buffer :=
                     appended (ensure_extra_space (length v) (m_frame_buffer p1)) v\<rparr>))
           else if m_parse_stage p1 \<noteq> FIN_BIT then (None, p1)
           else if remaining p1 = 0 then (None, p1)
           else parse p1)"
  unfolding update_def using assms
  by (simp add: push_back_view_appended Let_def)

lemma reset_pinv:
  assumes "pinv p"
  shows "\<exists>p1. (if is_done p then FrameParser_reset p else Some p) = Some p1 \<and> pinv p1"
proof (cases "is_done p")
  case True
  from reset_Some [OF assms] obtain b where
    r: "FrameParser_reset p = Some (p\<lparr>m_frame_buffer := b, parse_ptr := 0, m_frame := Frame_empty,
                 m_payload_len := 0, m_parse_stage := FIN_BIT\<rparr>)"
    and "m_ptr b = m_ptr (m_frame_buffer p) - parse_ptr p" "capacity b = capacity (m_frame_buffer p)"
    by blast
  then have "pinv (p\<lparr>m_frame_buffer := b, parse_ptr := 0, m_frame := Frame_empty,
                 m_payload_len := 0, m_parse_stage := FIN_BIT\<rparr>)"
    using assms by (auto simp add: pinv_def)
  with r True show ?thesis by simp
next
  case False
  with assms show ?thesis by simp
qed

lemma update_pinv:
  assumes "pinv p"
  shows "\<exists>r p'. update v p = Some (r, p') \<and> pinv p'"
proof -
  obtain p1 where p1: "(if is_done p then FrameParser_reset p else Some p) = Some p1" "pinv p1"
    using reset_pinv [OF assms] by blast
  let ?p2 = "p1\<lparr>m_frame_buffer := appended (ensure_extra_space (length v) (m_frame_buffer p1)) v\<rparr>"
  have i2: "pinv ?p2" using p1(2) by (rule pinv_with_appended)
  show ?thesis
    unfolding update_unfold [OF p1(1)]
    using i2 p1(2) pinv_parse [OF i2] pinv_parse [OF p1(2)]
    by (auto simp: prod_eq_iff)
qed

lemma update_flag_pinv:
  assumes "pinv p"
  shows "\<exists>r p'. update_flag nd p = Some (r, p') \<and> pinv p'"
proof -
  obtain p1 where p1: "(if is_done p then FrameParser_reset p else Some p) = Some p1" "pinv p1"
    using reset_pinv [OF assms] by blast
  show ?thesis
    unfolding update_flag_def using p1 pinv_parse [OF p1(2)]
    by (auto simp: prod_eq_iff)
qed

lemma run_ops_pinv: "pinv p \<Longrightarrow> \<exists>p'. run_ops ops p = Some p' \<and> pinv p'"
proof (induction ops arbitrary: p)
  case Nil
  then show ?case by simp
next
  case (Cons x xs)
  have "\<exists>p1. run_op x p = Some p1 \<and> pinv p1"
  proof (cases x)
    case (Update v)
    with update_pinv [OF Cons.prems, of v] show ?thesis by auto
  next
    case (Update_flag nd)
    with update_flag_pinv [OF Cons.prems, of nd] show ?thesis by auto
  next
    case Clear
    then show ?thesis by (simp add: pinv_clear)
  qed
  then obtain p1 where "run_op x p = Some p1" "pinv p1" by blast
  with Cons.IH [of p1] show ?case by simp
qed

text \<open>
  C8. After every sequence of public operations on a fresh parser (\<open>update\<close> with
  any chunk, empty or not, \<open>update(bool)\<close>, \<open>clear\<close>) every operation has
  returned, and the parse cursor is at most the write cursor of the accumulator.
\<close>

theorem parse_cursor_invariant:
  "\<exists>p. run_ops ops (FrameParser_init f0) = Some p \<and>
       parse_ptr p \<le> FrameBuffer_size (m_frame_buffer p)"
  using run_ops_pinv [OF pinv_init, of ops f0]
  by (auto simp: pinv_def FrameBuffer_size_def)

section \<open>Bytes and lengths on the wire\<close>

lemma and_FF_nat: "(n::nat) AND 0xFF = take_bit 8 n"
  by (simp add: take_bit_eq_mask mask_eq_exp_minus_1)

lemma and_7F_u8: "(x::u8) AND 0x7F = take_bit 7 x"
  by (simp add: take_bit_eq_mask mask_eq_exp_minus_1)

lemma and_80_u8: "((x::u8) AND 0x80 = 0) = (\<not> bit x 7)"
  using and_exp_eq_0_iff_not_bit [of x 7] by simp

lemma small_AND_7F: "n < 128 \<Longrightarrow> (of_nat n :: u8) AND 0x7F = of_nat n"
  by (simp add: and_7F_u8 take_bit_of_nat take_bit_nat_eq_self)

lemma not_bit_nat: "n < 2 ^ m \<Longrightarrow> m \<le> k \<Longrightarrow> \<not> bit (n::nat) k"
proof -
  assume "n < 2 ^ m" "m \<le> k"
  then have "n < 2 ^ k"
    by (meson less_le_trans one_le_numeral power_increasing)
  then show ?thesis by (simp add: bit_iff_odd)
qed

lemma small_AND_80: "n < 128 \<Longrightarrow> (of_nat n :: u8) AND 0x80 = 0"
  using not_bit_nat [of n 7 7] by (simp add: and_80_u8 bit_of_nat_iff)

lemma length_byte_small:
  "n < 126 \<Longrightarrow> ((if m then 0x80 else 0x00) OR of_nat n) AND (0x7F :: u8) = of_nat n"
  "n < 126 \<Longrightarrow> (((if m then 0x80 else 0x00) OR of_nat n) AND (0x80 :: u8) \<noteq> 0) = m"
  by (simp_all add: bit.conj_disj_distrib2 small_AND_7F small_AND_80)

lemma length_byte_126:
  "((if m then 0x80 else 0x00) OR 126) AND (0x7F :: u8) = 126"
  "(((if m then 0x80 else 0x00) OR 126) AND (0x80 :: u8) \<noteq> 0) = m"
  "((if m then 0x80 else 0x00) OR 127) AND (0x7F :: u8) = 127"
  "(((if m then 0x80 else 0x00) OR 127) AND (0x80 :: u8) \<noteq> 0) = m"
  by simp_all

lemma first_byte:
  "(((if fi then 0x80 else 0x00) OR (opc AND 0x0F)) AND (0x80 :: u8) \<noteq> 0) = fi"
  "((if fi then 0x80 else 0x00) OR (opc AND 0x0F)) AND (0x0F :: u8) = opc AND 0x0F"
  by (simp_all add: bit.conj_disj_distrib2 and.assoc)

lemma unat_of_nat_u8: "n < 256 \<Longrightarrow> unat (of_nat n :: u8) = n"
  by (simp add: unat_of_nat)

lemma unat_of_nat_u64: "n < 2 ^ 64 \<Longrightarrow> unat (of_nat n :: u64) = n"
  by (simp add: unat_of_nat)

lemma of_nat_u8_neq: "n < 126 \<Longrightarrow> (of_nat n :: u8) \<noteq> 126 \<and> (of_nat n :: u8) \<noteq> 127"
  by (auto simp add: word_unat_eq_iff unat_of_nat)

lemma ucast_u8_u64: "n < 256 \<Longrightarrow> (ucast (of_nat n :: u8) :: u64) = of_nat n"
proof (rule bit_word_eqI)
  fix k
  assume n: "n < 256"
  have "bit n k \<Longrightarrow> k < 8" using not_bit_nat [of n 8 k] n by (cases "k < 8") auto
  then show "bit (ucast (of_nat n :: u8) :: u64) k = bit (of_nat n :: u64) k"
    by (auto simp add: bit_simps)
qed

lemma byte_of_nat: "(of_nat (drop_bit k n AND 0xFF) :: u8) = of_nat (take_bit 8 (drop_bit k n))"
  by (simp add: and_FF_nat)

lemma nat_split16:
  assumes "n < 2 ^ 16"
  shows "push_bit 8 (take_bit 8 (drop_bit 8 n)) OR take_bit 8 n = (n::nat)"
proof (rule bit_eqI)
  fix k
  have hi: "bit n k \<Longrightarrow> k < 16" using not_bit_nat [OF assms, of k] by (cases "k < 16") auto
  show "bit (push_bit 8 (take_bit 8 (drop_bit 8 n)) OR take_bit 8 n) k = bit n k"
    using hi by (auto simp add: bit_simps)
qed

lemma len16:
  assumes "n \<le> 0xFFFF"
  shows "push_bit 8 (ucast (of_nat (drop_bit 8 n AND 0xFF) :: u8) :: u64)
           OR ucast (of_nat (n AND 0xFF) :: u8) = of_nat n"
proof -
  have a: "take_bit 8 (drop_bit 8 n) < 256" "take_bit 8 n < 256"
    using take_bit_nat_less_exp [of 8] by simp_all
  have n: "n < 2 ^ 16" using assms by simp
  have "push_bit 8 (ucast (of_nat (drop_bit 8 n AND 0xFF) :: u8) :: u64)
           OR ucast (of_nat (n AND 0xFF) :: u8)
        = of_nat (push_bit 8 (take_bit 8 (drop_bit 8 n)) OR take_bit 8 n)"
    using a by (simp add: and_FF_nat ucast_u8_u64 push_bit_of_nat of_nat_or_eq)
  then show ?thesis by (simp add: nat_split16 [OF n])
qed

lemma nat_split32:
  assumes "n < 2 ^ 32"
  shows "push_bit 24 (take_bit 8 (drop_bit 24 n)) OR push_bit 16 (take_bit 8 (drop_bit 16 n)) OR
         push_bit 8 (take_bit 8 (drop_bit 8 n)) OR take_bit 8 n = (n::nat)"
proof (rule bit_eqI)
  fix k
  have hi: "bit n k \<Longrightarrow> k < 32" using not_bit_nat [OF assms, of k] by (cases "k < 32") auto
  consider "k < 8" | "8 \<le> k" "k < 16" | "16 \<le> k" "k < 24" | "24 \<le> k" "k < 32" | "32 \<le> k"
    by linarith
  then show "bit (push_bit 24 (take_bit 8 (drop_bit 24 n)) OR push_bit 16 (take_bit 8 (drop_bit 16 n)) OR
         push_bit 8 (take_bit 8 (drop_bit 8 n)) OR take_bit 8 n) k = bit n k"
    using hi by cases (auto simp add: bit_simps)
qed

lemma ucast_u8_u32: "n < 256 \<Longrightarrow> (ucast (of_nat n :: u8) :: 32 word) = of_nat n"
proof (rule bit_word_eqI)
  fix k
  assume n: "n < 256"
  have "bit n k \<Longrightarrow> k < 8" using not_bit_nat [of n 8 k] n by (cases "k < 8") auto
  then show "bit (ucast (of_nat n :: u8) :: 32 word) k = bit (of_nat n :: 32 word) k"
    by (auto simp add: bit_simps)
qed

lemma scast_small: "v < 2 ^ 31 \<Longrightarrow> (scast (of_nat v :: 32 word) :: u64) = of_nat v"
proof (rule bit_word_eqI)
  fix k
  assume v: "v < 2 ^ 31" and k: "k < LENGTH(64)"
  have hi: "bit v j \<Longrightarrow> j < 31" for j using not_bit_nat [OF v, of j] by (cases "j < 31") auto
  show "bit (scast (of_nat v :: 32 word) :: u64) k = bit (of_nat v :: u64) k"
    using k hi [of k] hi [of 31] by (auto simp add: bit_simps bit_word_scast_iff min_def)
qed

lemma zero_high_bytes:
  assumes "n < 2 ^ 32" "32 \<le> k"
  shows "(of_nat (drop_bit k n AND 0xFF) :: u8) = 0"
proof -
  have "n < 2 ^ k" using assms
    by (meson less_le_trans one_le_numeral power_increasing)
  then have "drop_bit k n = 0" by (simp add: drop_bit_eq_div)
  then show ?thesis by simp
qed


lemma part_le: "push_bit k (take_bit 8 (drop_bit k n)) \<le> (n::nat)"
proof -
  have "take_bit 8 (drop_bit k n) \<le> drop_bit k n" by (simp add: take_bit_eq_mod)
  then have "take_bit 8 (drop_bit k n) * 2 ^ k \<le> (n div 2 ^ k) * 2 ^ k"
    by (simp add: drop_bit_eq_div)
  also have "\<dots> \<le> n" by simp
  finally show ?thesis by (simp add: push_bit_eq_mult)
qed

lemma scast_part:
  assumes "n < 2 ^ 31"
  shows "(scast (push_bit k (of_nat (take_bit 8 (drop_bit k n)) :: 32 word)) :: u64)
          = of_nat (push_bit k (take_bit 8 (drop_bit k n)))"
proof -
  have "push_bit k (take_bit 8 (drop_bit k n)) < 2 ^ 31"
    using part_le [of k n] assms by simp
  then have "(scast (of_nat (push_bit k (take_bit 8 (drop_bit k n))) :: 32 word) :: u64)
          = of_nat (push_bit k (take_bit 8 (drop_bit k n)))"
    by (rule scast_small)
  then show ?thesis by (simp only: push_bit_of_nat)
qed

lemma len64:
  assumes "n < 2 ^ 31"
  shows "decode_len64 (map (\<lambda>i. of_nat (drop_bit (8 * i) n AND 0xFF)) (rev [0..<8])) = of_nat n"
proof -
  have n32: "n < 2 ^ 32" using assms by simp
  have b: "take_bit 8 (drop_bit k n) < 256" for k
    using take_bit_nat_less_exp [of 8] by simp
  have z: "(of_nat (drop_bit k n AND 0xFF) :: u8) = 0" if "32 \<le> k" for k
    using zero_high_bytes [OF n32 that] .
  have p0: "(scast (of_nat (take_bit 8 n) :: 32 word) :: u64) = of_nat (take_bit 8 n)"
    using scast_part [OF assms, of 0] by simp
  have "decode_len64 (map (\<lambda>i. of_nat (drop_bit (8 * i) n AND 0xFF)) (rev [0..<8]))
      = of_nat (push_bit 24 (take_bit 8 (drop_bit 24 n)) OR push_bit 16 (take_bit 8 (drop_bit 16 n)) OR
         push_bit 8 (take_bit 8 (drop_bit 8 n)) OR take_bit 8 n)"
    apply (simp add: decode_len64_def upt_rec z shl_int_def)
    apply (simp add: and_FF_nat ucast_u8_u32 b b [of 0, simplified] scast_part [OF assms] p0 of_nat_or_eq)
    done
  then show ?thesis by (simp add: nat_split32 [OF n32])
qed

lemma len64_2GiB:
  "decode_len64 (map (\<lambda>i. of_nat (drop_bit (8 * i) (2 ^ 31) AND 0xFF)) (rev [0..<8]))
     = 0xFFFFFFFF80000000"
  by (simp add: decode_len64_def upt_rec shl_int_def)

section \<open>The stage checks\<close>

lemmas parser_defs = check_fin_bit_def check_opcode_def check_mask_bit_def check_payload_len_def
  check_extended_payload_len_16_def check_extended_payload_len_64_def check_masking_key_def
  check_payload_data_def remaining_def FrameBuffer_size_def consume_def read_def after_length_def

lemma buf_nth_view: "i < m_ptr B \<Longrightarrow> m_buf B ! i = view B ! i"
  by (simp add: view_def)

lemma buf_take_drop_view:
  "i + n \<le> m_ptr B \<Longrightarrow> take n (drop i (m_buf B)) = take n (drop i (view B))"
  by (simp add: view_def drop_take)

lemma length_view: "m_ptr B \<le> capacity B \<Longrightarrow> length (view B) = m_ptr B"
  by (simp add: view_def capacity_def)

lemma key_map_view:
  "i + 4 \<le> m_ptr B \<Longrightarrow> m_ptr B \<le> capacity B \<Longrightarrow> map (\<lambda>k. m_buf B ! (i + k)) [0..<4] = take 4 (drop i (view B))"
  by (rule nth_equalityI) (auto simp add: view_def capacity_def)

text \<open>Each stage check, when it has the bytes it waits for, in terms of the
  buffer's view.\<close>

lemma fire_fin:
  "m_parse_stage p = FIN_BIT \<Longrightarrow> parse_ptr p < m_ptr (m_frame_buffer p) \<Longrightarrow>
   check_fin_bit p = p\<lparr>m_frame := (m_frame p)\<lparr>fin := (view (m_frame_buffer p) ! parse_ptr p AND 0x80 \<noteq> 0)\<rparr>,
                        m_parse_stage := OPCODE\<rparr>"
  by (simp add: parser_defs buf_nth_view)

lemma fire_opcode:
  "m_parse_stage p = OPCODE \<Longrightarrow> parse_ptr p < m_ptr (m_frame_buffer p) \<Longrightarrow>
   check_opcode p = p\<lparr>parse_ptr := parse_ptr p + 1,
       m_frame := (m_frame p)\<lparr>opcode := view (m_frame_buffer p) ! parse_ptr p AND 0x0F\<rparr>,
       m_parse_stage := MASK_BIT\<rparr>"
  by (simp add: parser_defs buf_nth_view)

lemma fire_mask:
  "m_parse_stage p = MASK_BIT \<Longrightarrow> parse_ptr p < m_ptr (m_frame_buffer p) \<Longrightarrow>
   check_mask_bit p = p\<lparr>m_frame := (m_frame p)\<lparr>mask_flag := (view (m_frame_buffer p) ! parse_ptr p AND 0x80 \<noteq> 0)\<rparr>,
                        m_parse_stage := PAYLOAD_LEN\<rparr>"
  by (simp add: parser_defs buf_nth_view)

lemma fire_len:
  "m_parse_stage p = PAYLOAD_LEN \<Longrightarrow> parse_ptr p < m_ptr (m_frame_buffer p) \<Longrightarrow>
   check_payload_len p =
     (if view (m_frame_buffer p) ! parse_ptr p AND 0x7F = 126
      then p\<lparr>parse_ptr := parse_ptr p + 1, m_parse_stage := EXTENDED_PAYLOAD_LEN_16\<rparr>
      else if view (m_frame_buffer p) ! parse_ptr p AND 0x7F = 127
      then p\<lparr>parse_ptr := parse_ptr p + 1, m_parse_stage := EXTENDED_PAYLOAD_LEN_64\<rparr>
      else p\<lparr>parse_ptr := parse_ptr p + 1,
             m_payload_len := ucast (view (m_frame_buffer p) ! parse_ptr p AND 0x7F),
             m_parse_stage := (if mask_flag (m_frame p) then MASKING_KEY else PAYLOAD_DATA)\<rparr>)"
  by (simp add: parser_defs buf_nth_view Let_def)

lemma fire_16:
  "m_parse_stage p = EXTENDED_PAYLOAD_LEN_16 \<Longrightarrow> parse_ptr p + 2 \<le> m_ptr (m_frame_buffer p) \<Longrightarrow>
   check_extended_payload_len_16 p =
     p\<lparr>parse_ptr := parse_ptr p + 2,
       m_payload_len := push_bit 8 (ucast (view (m_frame_buffer p) ! parse_ptr p) :: u64)
                         OR ucast (view (m_frame_buffer p) ! (parse_ptr p + 1)),
       m_parse_stage := (if mask_flag (m_frame p) then MASKING_KEY else PAYLOAD_DATA)\<rparr>"
  by (simp add: parser_defs buf_nth_view)

lemma loop64_unrolled:
  "payload_len_64_loop 8 p =
     p\<lparr>parse_ptr := parse_ptr p + 8,
       m_payload_len := m_payload_len p OR
         scast (shl_int (ucast (m_buf (m_frame_buffer p) ! parse_ptr p)) 56) OR
         scast (shl_int (ucast (m_buf (m_frame_buffer p) ! (parse_ptr p + 1))) 48) OR
         scast (shl_int (ucast (m_buf (m_frame_buffer p) ! (parse_ptr p + 2))) 40) OR
         scast (shl_int (ucast (m_buf (m_frame_buffer p) ! (parse_ptr p + 3))) 32) OR
         scast (shl_int (ucast (m_buf (m_frame_buffer p) ! (parse_ptr p + 4))) 24) OR
         scast (shl_int (ucast (m_buf (m_frame_buffer p) ! (parse_ptr p + 5))) 16) OR
         scast (shl_int (ucast (m_buf (m_frame_buffer p) ! (parse_ptr p + 6))) 8) OR
         scast (shl_int (ucast (m_buf (m_frame_buffer p) ! (parse_ptr p + 7))) 0)\<rparr>"
  by (simp add: eval_nat_numeral consume_def read_def or.assoc)

lemma fire_64:
  "m_parse_stage p = EXTENDED_PAYLOAD_LEN_64 \<Longrightarrow> parse_ptr p + 8 \<le> m_ptr (m_frame_buffer p) \<Longrightarrow>
   m_ptr (m_frame_buffer p) \<le> capacity (m_frame_buffer p) \<Longrightarrow>
   check_extended_payload_len_64 p =
     p\<lparr>parse_ptr := parse_ptr p + 8,
       m_payload_len := decode_len64 (take 8 (drop (parse_ptr p) (view (m_frame_buffer p)))),
       m_parse_stage := (if mask_flag (m_frame p) then MASKING_KEY else PAYLOAD_DATA)\<rparr>"
  by (simp add: check_extended_payload_len_64_def remaining_def FrameBuffer_size_def after_length_def
      loop64_unrolled decode_len64_def buf_nth_view length_view Let_def)

lemma fire_key:
  "m_parse_stage p = MASKING_KEY \<Longrightarrow> parse_ptr p + 4 \<le> m_ptr (m_frame_buffer p) \<Longrightarrow>
   m_ptr (m_frame_buffer p) \<le> capacity (m_frame_buffer p) \<Longrightarrow>
   check_masking_key p =
     p\<lparr>m_frame := (m_frame p)\<lparr>masking_key := take 4 (drop (parse_ptr p) (view (m_frame_buffer p)))\<rparr>,
       parse_ptr := parse_ptr p + 4,
       m_parse_stage := PAYLOAD_DATA\<rparr>"
  by (simp add: parser_defs key_map_view)

lemma fire_data:
  "m_parse_stage p = PAYLOAD_DATA \<Longrightarrow> parse_ptr p + unat (m_payload_len p) \<le> m_ptr (m_frame_buffer p) \<Longrightarrow>
   check_payload_data p =
     (if m_payload_len p = 0 then p\<lparr>m_parse_stage := DONE\<rparr>
      else p\<lparr>m_frame := (m_frame p)\<lparr>payload :=
                  take (unat (m_payload_len p)) (drop (parse_ptr p) (view (m_frame_buffer p)))\<rparr>,
             parse_ptr := parse_ptr p + unat (m_payload_len p),
             m_parse_stage := DONE\<rparr>)"
  by (simp add: parser_defs buf_take_drop_view)

lemma hold_data:
  "m_parse_stage p = PAYLOAD_DATA \<Longrightarrow> parse_ptr p \<le> m_ptr (m_frame_buffer p) \<Longrightarrow>
   m_ptr (m_frame_buffer p) < parse_ptr p + unat (m_payload_len p) \<Longrightarrow>
   check_payload_data p = p"
  by (simp add: parser_defs)

section \<open>Parsing a frame\<close>


lemma length_wire_payload [simp]: "length (wire_payload f) = length (payload f)"
  by (simp add: wire_payload_def)

lemma hold_noop:
  "m_parse_stage p \<noteq> FIN_BIT \<Longrightarrow> check_fin_bit p = p"
  "m_parse_stage p \<noteq> OPCODE \<Longrightarrow> check_opcode p = p"
  "m_parse_stage p \<noteq> MASK_BIT \<Longrightarrow> check_mask_bit p = p"
  "m_parse_stage p \<noteq> PAYLOAD_LEN \<Longrightarrow> check_payload_len p = p"
  "m_parse_stage p \<noteq> EXTENDED_PAYLOAD_LEN_16 \<Longrightarrow> check_extended_payload_len_16 p = p"
  "m_parse_stage p \<noteq> EXTENDED_PAYLOAD_LEN_64 \<Longrightarrow> check_extended_payload_len_64 p = p"
  "m_parse_stage p \<noteq> MASKING_KEY \<Longrightarrow> check_masking_key p = p"
  "m_parse_stage p \<noteq> PAYLOAD_DATA \<Longrightarrow> check_payload_data p = p"
  by (simp_all add: parser_defs)

text \<open>The header stages on a buffer that holds a first byte and its length bytes.\<close>

lemma parse_header:
  assumes st: "m_parse_stage p = FIN_BIT" "parse_ptr p = 0"
    and cap: "m_ptr (m_frame_buffer p) \<le> capacity (m_frame_buffer p)"
    and vw: "view (m_frame_buffer p) = b0 # lb @ rest"
    and lb: "lb \<noteq> []"
       "length lb = (if hd lb AND 0x7F = 126 then 3 else if hd lb AND 0x7F = 127 then 9 else 1)"
  shows "check_extended_payload_len_64 (check_extended_payload_len_16 (check_payload_len
           (check_mask_bit (check_opcode (check_fin_bit p))))) =
         p\<lparr>m_frame := (m_frame p)\<lparr>fin := (b0 AND 0x80 \<noteq> 0), opcode := b0 AND 0x0F,
                                    mask_flag := (hd lb AND 0x80 \<noteq> 0)\<rparr>,
           m_payload_len := decoded_len lb,
           parse_ptr := 1 + length lb,
           m_parse_stage := (if hd lb AND 0x80 \<noteq> 0 then MASKING_KEY else PAYLOAD_DATA)\<rparr>"
proof -
  have len: "m_ptr (m_frame_buffer p) = Suc (length lb + length rest)"
    using length_view [OF cap] vw by simp
  obtain b1 lb' where lb': "lb = b1 # lb'" using lb(1) by (cases lb) auto
  consider (s) "b1 AND 0x7F \<noteq> 126" "b1 AND 0x7F \<noteq> 127" "lb' = []"
    | (m) e1 e0 where "b1 AND 0x7F = 126" "lb' = [e1, e0]"
    | (l) e7 e6 e5 e4 e3 e2 e1 e0 where "b1 AND 0x7F = 127" "lb' = [e7, e6, e5, e4, e3, e2, e1, e0]"
    using lb(2) lb'
    by (cases "b1 AND 0x7F = 126"; cases "b1 AND 0x7F = 127")
       (auto simp add: length_Suc_conv eval_nat_numeral)
  then show ?thesis
  proof cases
    case s
    then show ?thesis using st cap vw len lb'
      by (simp add: fire_fin fire_opcode fire_mask fire_len hold_noop decoded_len_def)
  next
    case m
    then show ?thesis using st cap vw len lb'
      by (simp add: fire_fin fire_opcode fire_mask fire_len fire_16 hold_noop decoded_len_def)
  next
    case l
    then show ?thesis using st cap vw len lb'
      by (simp add: fire_fin fire_opcode fire_mask fire_len fire_64 hold_noop decoded_len_def)
  qed
qed


lemma drop_hdr: "drop (k + Suc (length lb)) (b0 # lb @ rest) = drop k rest"
  by simp

lemma parse_complete:
  assumes st: "m_parse_stage p = FIN_BIT" "parse_ptr p = 0"
    and cap: "m_ptr (m_frame_buffer p) \<le> capacity (m_frame_buffer p)"
    and vw: "view (m_frame_buffer p) = b0 # lb @ rest"
    and lb: "lb \<noteq> []"
       "length lb = (if hd lb AND 0x7F = 126 then 3 else if hd lb AND 0x7F = 127 then 9 else 1)"
    and enough: "(if hd lb AND 0x80 \<noteq> 0 then 4 else 0) + unat (decoded_len lb) \<le> length rest"
  shows "parse_stages p =
         p\<lparr>m_frame := (m_frame p)\<lparr>fin := (b0 AND 0x80 \<noteq> 0), opcode := b0 AND 0x0F,
                mask_flag := (hd lb AND 0x80 \<noteq> 0),
                masking_key := (if hd lb AND 0x80 \<noteq> 0 then take 4 rest
                                else masking_key (m_frame p)),
                payload := (if decoded_len lb = 0 then payload (m_frame p)
                            else take (unat (decoded_len lb))
                                   (drop (if hd lb AND 0x80 \<noteq> 0 then 4 else 0) rest))\<rparr>,
           m_payload_len := decoded_len lb,
           parse_ptr := 1 + length lb + (if hd lb AND 0x80 \<noteq> 0 then 4 else 0)
                          + unat (decoded_len lb),
           m_parse_stage := DONE\<rparr>"
proof -
  have len: "m_ptr (m_frame_buffer p) = Suc (length lb + length rest)"
    using length_view [OF cap] vw by simp
  show ?thesis
  proof (cases "hd lb AND 0x80 \<noteq> 0")
    case True
    then have "4 + unat (decoded_len lb) \<le> length rest" using enough by simp
    moreover have "drop (5 + length lb) (b0 # lb @ rest) = drop 4 rest"
      using drop_hdr [of 4 lb b0 rest] by (simp add: add.commute)
    ultimately show ?thesis
      unfolding parse_stages_def parse_header [OF st cap vw lb]
      using True cap vw len
      by (simp add: fire_key fire_data hold_noop)
  next
    case False
    then have "unat (decoded_len lb) \<le> length rest" using enough by simp
    then show ?thesis
      unfolding parse_stages_def parse_header [OF st cap vw lb]
      using False cap vw len
      by (simp add: fire_data hold_noop)
  qed
qed

lemma parse_incomplete:
  assumes st: "m_parse_stage p = FIN_BIT" "parse_ptr p = 0"
    and cap: "m_ptr (m_frame_buffer p) \<le> capacity (m_frame_buffer p)"
    and vw: "view (m_frame_buffer p) = b0 # lb @ rest"
    and lb: "lb \<noteq> []"
       "length lb = (if hd lb AND 0x7F = 126 then 3 else if hd lb AND 0x7F = 127 then 9 else 1)"
    and short: "length rest < (if hd lb AND 0x80 \<noteq> 0 then 4 else 0) + unat (decoded_len lb)"
  shows "m_parse_stage (parse_stages p) \<noteq> DONE \<and>
         m_payload_len (parse_stages p) = decoded_len lb"
proof -
  have len: "m_ptr (m_frame_buffer p) = Suc (length lb + length rest)"
    using length_view [OF cap] vw by simp
  show ?thesis
  proof (cases "hd lb AND 0x80 \<noteq> 0 \<and> length rest < 4")
    case True
    then show ?thesis
      unfolding parse_stages_def parse_header [OF st cap vw lb]
      using cap vw len
      by (simp add: parser_defs)
  next
    case False
    then show ?thesis
      unfolding parse_stages_def parse_header [OF st cap vw lb]
      using short cap vw len
      by (auto simp add: fire_key hold_data hold_noop)
  qed
qed


lemma length_bytes_shape:
  "length_bytes m n \<noteq> []"
  "length (length_bytes m n) =
     (if hd (length_bytes m n) AND 0x7F = 126 then 3
      else if hd (length_bytes m n) AND 0x7F = 127 then 9 else 1)"
  "(hd (length_bytes m n) AND 0x80 \<noteq> 0) = m"
  using of_nat_u8_neq [of n]
  by (auto simp add: length_bytes_def length_byte_small length_byte_126)

lemma decoded_len_length_bytes:
  assumes "n < 2 ^ 31"
  shows "decoded_len (length_bytes m n) = of_nat n"
proof -
  consider "n < 126" | "126 \<le> n" "n \<le> 0xFFFF" | "0xFFFF < n" by linarith
  then show ?thesis
  proof cases
    case 1
    then show ?thesis using of_nat_u8_neq [of n]
      by (simp add: decoded_len_def length_bytes_def length_byte_small ucast_u8_u64)
  next
    case 2
    then show ?thesis
      by (simp add: decoded_len_def length_bytes_def length_byte_126 len16)
  next
    case 3
    have "take 8 (map (\<lambda>i. of_nat (drop_bit (8 * i) n AND 0xFF) :: u8) (rev [0..<8]))
          = map (\<lambda>i. of_nat (drop_bit (8 * i) n AND 0xFF)) (rev [0..<8])"
      by simp
    with 3 show ?thesis
      by (simp add: decoded_len_def length_bytes_def length_byte_126 len64 [OF assms]
          del: upt_Suc rev_map)
  qed
qed

lemma decoded_len_2GiB:
  "decoded_len (length_bytes m (2 ^ 31)) = 0xFFFFFFFF80000000"
proof -
  have "take 8 (map (\<lambda>i. of_nat (drop_bit (8 * i) (2 ^ 31 :: nat) AND 0xFF) :: u8) (rev [0..<8]))
          = map (\<lambda>i. of_nat (drop_bit (8 * i) (2 ^ 31 :: nat) AND 0xFF)) (rev [0..<8])"
    by simp
  then show ?thesis
    using len64_2GiB
    by (simp add: decoded_len_def length_bytes_def length_byte_126 del: upt_Suc rev_map)
qed


lemma payload_bytes_split:
  "payload_bytes f = (if mask_flag f then map (\<lambda>i. masking_key f ! i) [0..<4] else []) @ wire_payload f"
  by (simp add: payload_bytes_def wire_payload_def)

lemma parse_frame_bytes:
  assumes st: "m_parse_stage p = FIN_BIT" "parse_ptr p = 0" "payload (m_frame p) = []"
    and cap: "m_ptr (m_frame_buffer p) \<le> capacity (m_frame_buffer p)"
    and vw: "view (m_frame_buffer p) = frame_bytes f @ tail"
    and n: "length (payload f) < 2 ^ 31"
  shows "parse_stages p =
           p\<lparr>m_frame := decoded_frame f (m_frame p),
             m_payload_len := of_nat (length (payload f)),
             parse_ptr := length (frame_bytes f),
             m_parse_stage := DONE\<rparr>"
proof -
  let ?lb = "length_bytes (mask_flag f) (length (payload f))"
  let ?b0 = "(if fin f then 0x80 else 0x00) OR (opcode f AND 0x0F) :: u8"
  let ?rest = "payload_bytes f @ tail"
  have vw': "view (m_frame_buffer p) = ?b0 # ?lb @ ?rest"
    using vw by (simp add: frame_bytes_def)
  have dl: "decoded_len ?lb = of_nat (length (payload f))"
    using n by (rule decoded_len_length_bytes)
  have un: "unat (of_nat (length (payload f)) :: u64) = length (payload f)"
    using n by (simp add: unat_of_nat_u64)
  have z: "((of_nat (length (payload f)) :: u64) = 0) = (payload f = [])"
    using un by (simp add: word_unat_eq_iff)
  have enough: "(if hd ?lb AND 0x80 \<noteq> 0 then 4 else 0) + unat (decoded_len ?lb) \<le> length ?rest"
    by (simp add: dl un length_bytes_shape(3) length_payload_bytes)
  note eq = parse_complete [OF st(1,2) cap vw' length_bytes_shape(1,2) enough]
  have fr: "(m_frame p)\<lparr>fin := (?b0 AND 0x80 \<noteq> 0), opcode := ?b0 AND 0x0F,
                mask_flag := (hd ?lb AND 0x80 \<noteq> 0),
                masking_key := (if hd ?lb AND 0x80 \<noteq> 0 then take 4 ?rest
                                else masking_key (m_frame p)),
                payload := (if decoded_len ?lb = 0 then payload (m_frame p)
                            else take (unat (decoded_len ?lb))
                                   (drop (if hd ?lb AND 0x80 \<noteq> 0 then 4 else 0) ?rest))\<rparr>
            = decoded_frame f (m_frame p)"
    using st(3) un z
    by (cases "m_frame p"; cases "mask_flag f")
       (simp_all add: decoded_frame_def decoded_len_length_bytes [OF n] length_bytes_shape(3)
          first_byte payload_bytes_split wire_payload_def)
  have pp: "1 + length ?lb + (if hd ?lb AND 0x80 \<noteq> 0 then 4 else 0) + unat (decoded_len ?lb)
           = length (frame_bytes f)"
    by (simp add: dl un length_bytes_shape(3) frame_bytes_def length_payload_bytes)
  show ?thesis
    by (subst eq, subst fr, subst pp, subst dl) (rule refl)
qed


lemma fresh_buffer_props:
  "view (fresh_buffer v) = v"
  "m_ptr (fresh_buffer v) = length v"
  "length v \<le> capacity (fresh_buffer v)"
  by (simp_all add: fresh_buffer_def ensure_extra_space_def capacity_ensure_fit
      view_def FrameBuffer_init_def appended_def ensure_fit_def capacity_def)

lemma update_fresh:
  assumes "v \<noteq> []"
  shows "update v (FrameParser_init f0) =
           Some (parse ((FrameParser_init f0)\<lparr>m_frame_buffer := fresh_buffer v\<rparr>))"
proof -
  have nd: "(if is_done (FrameParser_init f0) then FrameParser_reset (FrameParser_init f0)
             else Some (FrameParser_init f0)) = Some (FrameParser_init f0)"
    by (simp add: is_done_def FrameParser_init_def)
  have b: "m_frame_buffer (FrameParser_init f0) = FrameBuffer_init 4096"
    by (simp add: FrameParser_init_def)
  have r: "remaining ((FrameParser_init f0)\<lparr>m_frame_buffer := fresh_buffer v\<rparr>) \<noteq> 0"
    using assms
    by (simp add: remaining_def FrameBuffer_size_def fresh_buffer_props FrameParser_init_def)
  show ?thesis
    unfolding update_unfold [OF nd] b fresh_buffer_def [symmetric]
    using assms r by simp
qed

lemma frame_bytes_nonempty [simp]: "frame_bytes f @ tail \<noteq> []"
  by (simp add: frame_bytes_def)

lemma update_fresh_frame:
  assumes n: "length (payload f) < 2 ^ 31"
  shows "update (frame_bytes f @ tail) (FrameParser_init f0) =
           Some (Some (decoded_frame f f0),
                 \<lparr>m_parse_stage = DONE, m_frame = decoded_frame f f0,
                  m_frame_buffer = fresh_buffer (frame_bytes f @ tail),
                  m_payload_len = of_nat (length (payload f)),
                  parse_ptr = length (frame_bytes f)\<rparr>)"
proof -
  let ?p = "(FrameParser_init f0)\<lparr>m_frame_buffer := fresh_buffer (frame_bytes f @ tail)\<rparr>"
  have "parse_stages ?p =
           ?p\<lparr>m_frame := decoded_frame f (m_frame ?p),
             m_payload_len := of_nat (length (payload f)),
             parse_ptr := length (frame_bytes f),
             m_parse_stage := DONE\<rparr>"
    using fresh_buffer_props(3) [of "frame_bytes f @ tail"]
    by (intro parse_frame_bytes [OF _ _ _ _ _ n])
       (simp_all add: FrameParser_init_def fresh_buffer_props(1,2))
  moreover have "decoded_frame f (m_frame ?p) = decoded_frame f f0"
    by (simp add: decoded_frame_def FrameParser_init_def)
  ultimately show ?thesis
    unfolding update_fresh [OF frame_bytes_nonempty]
    by (simp add: parse_def is_done_def FrameParser_init_def)
qed

lemma unmask_decoded:
  "(if mask_flag f
    then map (\<lambda>i. payload (decoded_frame f g) ! i XOR masking_key (decoded_frame f g) ! (i mod 4))
           [0..<length (payload (decoded_frame f g))]
    else payload (decoded_frame f g)) = payload f"
  by (auto simp add: decoded_frame_def wire_payload_def xor.assoc intro!: nth_equalityI)


lemma update_fresh_2GiB:
  assumes n: "length (payload f) = 2 ^ 31" and t: "length tail < 2 ^ 63"
  shows "\<exists>p'. update (frame_bytes f @ tail) (FrameParser_init f0) = Some (None, p') \<and>
           m_parse_stage p' \<noteq> DONE \<and> m_payload_len p' = 0xFFFFFFFF80000000"
proof -
  let ?p = "(FrameParser_init f0)\<lparr>m_frame_buffer := fresh_buffer (frame_bytes f @ tail)\<rparr>"
  let ?lb = "length_bytes (mask_flag f) (length (payload f))"
  let ?b0 = "(if fin f then 0x80 else 0x00) OR (opcode f AND 0x0F) :: u8"
  let ?rest = "payload_bytes f @ tail"
  have vw: "view (m_frame_buffer ?p) = ?b0 # ?lb @ ?rest"
    by (simp add: fresh_buffer_props(1) frame_bytes_def)
  have cap: "m_ptr (m_frame_buffer ?p) \<le> capacity (m_frame_buffer ?p)"
    using fresh_buffer_props(3) [of "frame_bytes f @ tail"] by (simp add: fresh_buffer_props(2))
  have dl: "decoded_len ?lb = 0xFFFFFFFF80000000"
    unfolding n by (rule decoded_len_2GiB)
  have short: "length ?rest < (if hd ?lb AND 0x80 \<noteq> 0 then 4 else 0) + unat (decoded_len ?lb)"
    unfolding dl using n t by (simp add: length_bytes_shape(3) length_payload_bytes)
  have "m_parse_stage (parse_stages ?p) \<noteq> DONE \<and>
         m_payload_len (parse_stages ?p) = decoded_len ?lb"
    by (rule parse_incomplete [OF _ _ cap vw length_bytes_shape(1,2) short])
       (simp_all add: FrameParser_init_def)
  then show ?thesis
    unfolding update_fresh [OF frame_bytes_nonempty] dl
    by (simp add: parse_def is_done_def)
qed

section \<open>Round trip, extended lengths and leftover bytes\<close>


text \<open>
  C1. The round trip breaks at a payload of \<open>2^31\<close> bytes: the factory writes the
  length bytes \<open>00 00 00 00 80 00 00 00\<close>, the parser's 64-bit length stage turns
  them into \<open>0xFFFFFFFF80000000\<close>, and the single \<open>update\<close> call with the whole
  serialised frame reports "incomplete" instead of returning the frame.
\<close>

theorem roundtrip_fails_at_2GiB:
  "\<exists>w fac' p'.
     FrameFactory_construct True BINARY False (replicate (2 ^ 31) 0) fac = Some (w, fac') \<and>
     update w (FrameParser_init f0) = Some (None, p') \<and>
     m_parse_stage p' \<noteq> DONE \<and> m_payload_len p' = 0xFFFFFFFF80000000"
proof -
  let ?F = "\<lparr>fin = True, mask_flag = False, opcode = BINARY, masking_key = replicate 4 0,
             payload = replicate (2 ^ 31) (0::u8)\<rparr>"
  have "\<exists>p'. update (frame_bytes ?F @ []) (FrameParser_init f0) = Some (None, p') \<and>
           m_parse_stage p' \<noteq> DONE \<and> m_payload_len p' = 0xFFFFFFFF80000000"
    by (rule update_fresh_2GiB) simp_all
  then show ?thesis
    by (simp add: FrameFactory_construct_eq)
qed

text \<open>
  Below \<open>2^31\<close> payload bytes the round trip holds for every \<open>fin\<close>, opcode, mask
  flag and payload, from any factory state into any new parser: the returned frame
  has the same \<open>fin\<close> and \<open>mask\<close>, the opcode's low nibble (the opcode itself for
  the six named ones), and XORing the returned payload with the returned key gives
  the original payload.
\<close>

theorem roundtrip_below_2GiB:
  assumes "length pl < 2 ^ 31"
  shows "\<exists>w fac' fr p'.
     FrameFactory_construct fi opc m pl fac = Some (w, fac') \<and>
     update w (FrameParser_init f0) = Some (Some fr, p') \<and>
     fin fr = fi \<and> mask_flag fr = m \<and> opcode fr = opc AND 0x0F \<and>
     (opc \<in> {CONTINUATION, TEXT, BINARY, CLOSE, PING, PONG} \<longrightarrow> opcode fr = opc) \<and>
     (if m then map (\<lambda>i. payload fr ! i XOR masking_key fr ! (i mod 4)) [0..<length (payload fr)]
      else payload fr) = pl"
proof -
  obtain key rc where k: "(if m then RandomCache_get (factory_random fac)
            else (replicate 4 0, factory_random fac)) = (key, rc)"
    by (cases "(if m then RandomCache_get (factory_random fac)
            else (replicate 4 0, factory_random fac))") auto
  let ?F = "\<lparr>fin = fi, mask_flag = m, opcode = opc, masking_key = key, payload = pl\<rparr>"
  have c: "FrameFactory_construct fi opc m pl fac =
     Some (frame_bytes ?F,
           \<lparr>factory_buf = appended (ensure_fit (length pl + 14 + 100)
                               (FrameBuffer_reset (factory_buf fac))) (frame_bytes ?F),
            factory_random = rc\<rparr>)"
    unfolding FrameFactory_construct_eq k by simp
  have n: "length (payload ?F) < 2 ^ 31" using assms by simp
  have u: "update (frame_bytes ?F) (FrameParser_init f0) =
           Some (Some (decoded_frame ?F f0),
                 \<lparr>m_parse_stage = DONE, m_frame = decoded_frame ?F f0,
                  m_frame_buffer = fresh_buffer (frame_bytes ?F @ []),
                  m_payload_len = of_nat (length (payload ?F)),
                  parse_ptr = length (frame_bytes ?F)\<rparr>)"
    using update_fresh_frame [OF n, of "[]" f0] by simp
  have o: "opc \<in> {CONTINUATION, TEXT, BINARY, CLOSE, PING, PONG} \<longrightarrow> opc AND 0x0F = opc"
    by (auto simp add: CONTINUATION_def TEXT_def BINARY_def CLOSE_def PING_def PONG_def)
  have d: "fin (decoded_frame ?F f0) = fi" "mask_flag (decoded_frame ?F f0) = m"
    "opcode (decoded_frame ?F f0) = opc AND 0x0F"
    by (simp_all add: decoded_frame_def)
  show ?thesis
    using c u d o unmask_decoded [of ?F f0] by (intro exI conjI) simp_all
qed

text \<open>
  C3. A frame whose second byte carries base length 127 and whose next eight bytes
  are \<open>00 00 00 00 80 00 00 00\<close>, the big-endian integer \<open>0x80000000\<close>: the
  payload length the parser uses is \<open>0xFFFFFFFF80000000\<close>.
\<close>

theorem extended_length_64_sign_extended:
  "\<exists>p. update [0x82, 0x7F, 0, 0, 0, 0, 0x80, 0, 0, 0] (FrameParser_init f0) = Some (None, p) \<and>
        m_payload_len p = 0xFFFFFFFF80000000 \<and> m_payload_len p \<noteq> 0x80000000"
proof -
  let ?v = "[0x82, 0x7F, 0, 0, 0, 0, 0x80, 0, 0, 0] :: bytes"
  let ?lb = "[0x7F, 0, 0, 0, 0, 0x80, 0, 0, 0] :: bytes"
  let ?p = "(FrameParser_init f0)\<lparr>m_frame_buffer := fresh_buffer ?v\<rparr>"
  have dl: "decoded_len ?lb = 0xFFFFFFFF80000000"
    by (simp add: decoded_len_def decode_len64_def shl_int_def)
  have "m_parse_stage (parse_stages ?p) \<noteq> DONE \<and>
         m_payload_len (parse_stages ?p) = decoded_len ?lb"
    using fresh_buffer_props(3) [of ?v]
    by (intro parse_incomplete [where ?b0.0 = "0x82" and rest = "[]"])
       (simp_all add: FrameParser_init_def fresh_buffer_props(1,2) dl)
  then show ?thesis
    unfolding update_fresh [of ?v, simplified] dl
    by (simp add: parse_def is_done_def)
qed


lemma update_empty_after_done:
  assumes inv: "pinv p" and dn: "m_parse_stage p = DONE"
    and left: "drop (parse_ptr p) (view (m_frame_buffer p)) = frame_bytes f @ tail"
    and n: "length (payload f) < 2 ^ 31"
  shows "\<exists>b. update [] p =
           Some (Some (decoded_frame f Frame_empty),
                 \<lparr>m_parse_stage = DONE, m_frame = decoded_frame f Frame_empty,
                  m_frame_buffer = b,
                  m_payload_len = of_nat (length (payload f)),
                  parse_ptr = length (frame_bytes f)\<rparr>) \<and>
         view b = frame_bytes f @ tail \<and> m_ptr b \<le> capacity b"
proof -
  from reset_Some [OF inv] obtain b where
    r: "FrameParser_reset p = Some (p\<lparr>m_frame_buffer := b, parse_ptr := 0, m_frame := Frame_empty,
                   m_payload_len := 0, m_parse_stage := FIN_BIT\<rparr>)"
    and mp: "m_ptr b = m_ptr (m_frame_buffer p) - parse_ptr p"
    and cp: "capacity b = capacity (m_frame_buffer p)"
    and vb: "view b = drop (parse_ptr p) (view (m_frame_buffer p))"
    by blast
  let ?q = "\<lparr>m_parse_stage = FIN_BIT, m_frame = Frame_empty, m_frame_buffer = b,
             m_payload_len = 0, parse_ptr = 0\<rparr>"
  have e: "p\<lparr>m_frame_buffer := b, parse_ptr := 0, m_frame := Frame_empty,
                   m_payload_len := 0, m_parse_stage := FIN_BIT\<rparr> = ?q"
    by (cases p) simp
  have cap: "m_ptr b \<le> capacity b" using inv mp cp by (auto simp add: pinv_def)
  have vw: "view b = frame_bytes f @ tail" using vb left by simp
  have len: "m_ptr b = length (frame_bytes f @ tail)"
    using length_view [OF cap] vw by simp
  have r1: "(if is_done p then FrameParser_reset p else Some p) = Some ?q"
    using dn r e by (simp add: is_done_def)
  have rem: "remaining ?q \<noteq> 0"
    using len by (simp add: remaining_def FrameBuffer_size_def frame_bytes_def)
  have ps: "parse_stages ?q =
           ?q\<lparr>m_frame := decoded_frame f (m_frame ?q),
             m_payload_len := of_nat (length (payload f)),
             parse_ptr := length (frame_bytes f),
             m_parse_stage := DONE\<rparr>"
    using cap vw by (intro parse_frame_bytes [OF _ _ _ _ _ n]) (simp_all add: Frame_empty_def)
  have "update [] p = Some (parse ?q)"
    unfolding update_unfold [OF r1] using rem by simp
  then have "update [] p =
           Some (Some (decoded_frame f Frame_empty),
                 \<lparr>m_parse_stage = DONE, m_frame = decoded_frame f Frame_empty,
                  m_frame_buffer = b,
                  m_payload_len = of_nat (length (payload f)),
                  parse_ptr = length (frame_bytes f)\<rparr>)"
    by (simp add: parse_def ps is_done_def)
  with vw cap show ?thesis by blast
qed

text \<open>
  Two concatenated frames, each with fewer than \<open>2^31\<close> payload bytes, in one
  \<open>update\<close> call: the call returns the first frame; the next call, with an empty
  chunk, returns the second, and the accumulator then holds exactly the bytes of
  the second frame, all of them parsed.
\<close>

theorem leftover_preserved_below_2GiB:
  assumes "length (payload f1) < 2 ^ 31" "length (payload f2) < 2 ^ 31"
  shows "\<exists>p1 p2.
     update (frame_bytes f1 @ frame_bytes f2) (FrameParser_init f0)
       = Some (Some (decoded_frame f1 f0), p1) \<and>
     update [] p1 = Some (Some (decoded_frame f2 Frame_empty), p2) \<and>
     view (m_frame_buffer p2) = frame_bytes f2 \<and>
     parse_ptr p2 = length (frame_bytes f2)"
proof -
  let ?w = "frame_bytes f1 @ frame_bytes f2"
  let ?p1 = "\<lparr>m_parse_stage = DONE, m_frame = decoded_frame f1 f0,
                  m_frame_buffer = fresh_buffer ?w,
                  m_payload_len = of_nat (length (payload f1)),
                  parse_ptr = length (frame_bytes f1)\<rparr>"
  have u1: "update ?w (FrameParser_init f0) = Some (Some (decoded_frame f1 f0), ?p1)"
    by (rule update_fresh_frame [OF assms(1)])
  have inv: "pinv ?p1"
    using fresh_buffer_props(3) [of ?w] by (simp add: pinv_def fresh_buffer_props(2))
  have left: "drop (parse_ptr ?p1) (view (m_frame_buffer ?p1)) = frame_bytes f2 @ []"
    by (simp add: fresh_buffer_props(1))
  from update_empty_after_done [OF inv _ left assms(2)]
  obtain b where u2: "update [] ?p1 =
           Some (Some (decoded_frame f2 Frame_empty),
                 \<lparr>m_parse_stage = DONE, m_frame = decoded_frame f2 Frame_empty,
                  m_frame_buffer = b,
                  m_payload_len = of_nat (length (payload f2)),
                  parse_ptr = length (frame_bytes f2)\<rparr>)"
     and vb: "view b = frame_bytes f2 @ []"
    by auto
  show ?thesis
    apply (rule exI [of _ ?p1])
    apply (rule exI [of _ "\<lparr>m_parse_stage = DONE, m_frame = decoded_frame f2 Frame_empty,
                  m_frame_buffer = b,
                  m_payload_len = of_nat (length (payload f2)),
                  parse_ptr = length (frame_bytes f2)\<rparr>"])
    using u1 u2 vb apply simp
    done
qed

text \<open>
  C5. When the first of the two concatenated frames has a payload of \<open>2^31\<close> bytes,
  the \<open>update\<close> call that receives both frames returns no frame.
\<close>

theorem leftover_first_frame_lost_at_2GiB:
  "\<exists>w1 fac1 w2 fac2 p'.
     FrameFactory_construct True BINARY False (replicate (2 ^ 31) 0) fac = Some (w1, fac1) \<and>
     FrameFactory_construct True TEXT False [0x48, 0x69] fac1 = Some (w2, fac2) \<and>
     update (w1 @ w2) (FrameParser_init f0) = Some (None, p')"
proof -
  let ?F = "\<lparr>fin = True, mask_flag = False, opcode = BINARY, masking_key = replicate 4 0,
             payload = replicate (2 ^ 31) (0::u8)\<rparr>"
  let ?G = "\<lparr>fin = True, mask_flag = False, opcode = TEXT, masking_key = replicate 4 0,
             payload = [0x48, 0x69 :: u8]\<rparr>"
  have "length (frame_bytes ?G) < 2 ^ 63" by (simp add: length_frame_bytes)
  then have "\<exists>p'. update (frame_bytes ?F @ frame_bytes ?G) (FrameParser_init f0) = Some (None, p') \<and>
           m_parse_stage p' \<noteq> DONE \<and> m_payload_len p' = 0xFFFFFFFF80000000"
    by (intro update_fresh_2GiB) simp_all
  then show ?thesis
    by (auto simp add: FrameFactory_construct_eq)
qed

section \<open>Resuming the parse on a longer buffer\<close>

lemma ext_nth:
  "extends B B' \<Longrightarrow> i < m_ptr B \<Longrightarrow> view B' ! i = view B ! i"
  by (simp add: extends_def)

lemma ext_take_drop:
  "extends B B' \<Longrightarrow> i + n \<le> m_ptr B \<Longrightarrow>
   take n (drop i (view B')) = take n (drop i (view B))"
  by (simp add: extends_def drop_take [symmetric] take_drop min_def) 

lemma extD:
  "extends B B' \<Longrightarrow> m_ptr B \<le> m_ptr B'"
  "extends B B' \<Longrightarrow> m_ptr B' \<le> capacity B'"
  by (simp_all add: extends_def)


lemma stage_ok_fin: "stage_ok 0 check_fin_bit"
  unfolding stage_ok_def
  apply (intro conjI allI impI)
  subgoal for p by (cases "m_parse_stage p") (simp_all add: hold_noop)
  subgoal for p by (cases "m_parse_stage p") (simp_all add: need_def parser_defs pinv_def)
  subgoal for p by (cases "m_parse_stage p") (simp_all add: need_def fire_fin pinv_def)
  subgoal for p by (cases "m_parse_stage p") (simp_all add: need_def fire_fin pinv_def)
  subgoal for p by (cases "m_parse_stage p") (simp_all add: need_def fire_fin pinv_def)
  subgoal for p B'
    using extD [of "m_frame_buffer p" B']
    by (cases "m_parse_stage p")
       (simp_all add: need_def fire_fin pinv_def ext_nth [of "m_frame_buffer p" B']
          ext_take_drop [of "m_frame_buffer p" B'])
  done

lemma stage_ok_opcode: "stage_ok 1 check_opcode"
  unfolding stage_ok_def
  apply (intro conjI allI impI)
  subgoal for p by (cases "m_parse_stage p") (simp_all add: hold_noop)
  subgoal for p by (cases "m_parse_stage p") (simp_all add: need_def parser_defs pinv_def)
  subgoal for p by (cases "m_parse_stage p") (simp_all add: need_def fire_opcode pinv_def)
  subgoal for p by (cases "m_parse_stage p") (simp_all add: need_def fire_opcode pinv_def)
  subgoal for p by (cases "m_parse_stage p") (simp_all add: need_def fire_opcode pinv_def)
  subgoal for p B'
    using extD [of "m_frame_buffer p" B']
    by (cases "m_parse_stage p")
       (simp_all add: need_def fire_opcode pinv_def ext_nth [of "m_frame_buffer p" B']
          ext_take_drop [of "m_frame_buffer p" B'])
  done

lemma stage_ok_mask: "stage_ok 2 check_mask_bit"
  unfolding stage_ok_def
  apply (intro conjI allI impI)
  subgoal for p by (cases "m_parse_stage p") (simp_all add: hold_noop)
  subgoal for p by (cases "m_parse_stage p") (simp_all add: need_def parser_defs pinv_def)
  subgoal for p by (cases "m_parse_stage p") (simp_all add: need_def fire_mask pinv_def)
  subgoal for p by (cases "m_parse_stage p") (simp_all add: need_def fire_mask pinv_def)
  subgoal for p by (cases "m_parse_stage p") (simp_all add: need_def fire_mask pinv_def)
  subgoal for p B'
    using extD [of "m_frame_buffer p" B']
    by (cases "m_parse_stage p")
       (simp_all add: need_def fire_mask pinv_def ext_nth [of "m_frame_buffer p" B']
          ext_take_drop [of "m_frame_buffer p" B'])
  done

lemma stage_ok_len: "stage_ok 3 check_payload_len"
  unfolding stage_ok_def
  apply (intro conjI allI impI)
  subgoal for p by (cases "m_parse_stage p") (simp_all add: hold_noop)
  subgoal for p by (cases "m_parse_stage p") (simp_all add: need_def parser_defs pinv_def)
  subgoal for p by (cases "m_parse_stage p") (simp_all add: need_def fire_len pinv_def)
  subgoal for p by (cases "m_parse_stage p") (simp_all add: need_def fire_len pinv_def)
  subgoal for p by (cases "m_parse_stage p") (simp_all add: need_def fire_len pinv_def)
  subgoal for p B'
    using extD [of "m_frame_buffer p" B']
    by (cases "m_parse_stage p")
       (simp_all add: need_def fire_len pinv_def ext_nth [of "m_frame_buffer p" B']
          ext_take_drop [of "m_frame_buffer p" B'])
  done

lemma stage_ok_16: "stage_ok 4 check_extended_payload_len_16"
  unfolding stage_ok_def
  apply (intro conjI allI impI)
  subgoal for p by (cases "m_parse_stage p") (simp_all add: hold_noop)
  subgoal for p by (cases "m_parse_stage p") (simp_all add: need_def parser_defs pinv_def)
  subgoal for p by (cases "m_parse_stage p") (simp_all add: need_def fire_16 pinv_def)
  subgoal for p by (cases "m_parse_stage p") (simp_all add: need_def fire_16 pinv_def)
  subgoal for p by (cases "m_parse_stage p") (simp_all add: need_def fire_16 pinv_def)
  subgoal for p B'
    using extD [of "m_frame_buffer p" B']
    by (cases "m_parse_stage p")
       (simp_all add: need_def fire_16 pinv_def ext_nth [of "m_frame_buffer p" B']
          ext_take_drop [of "m_frame_buffer p" B'])
  done

lemma stage_ok_64: "stage_ok 5 check_extended_payload_len_64"
  unfolding stage_ok_def
  apply (intro conjI allI impI)
  subgoal for p by (cases "m_parse_stage p") (simp_all add: hold_noop)
  subgoal for p by (cases "m_parse_stage p") (simp_all add: need_def parser_defs pinv_def)
  subgoal for p by (cases "m_parse_stage p") (simp_all add: need_def fire_64 pinv_def)
  subgoal for p by (cases "m_parse_stage p") (simp_all add: need_def fire_64 pinv_def)
  subgoal for p by (cases "m_parse_stage p") (simp_all add: need_def fire_64 pinv_def)
  subgoal for p B'
    using extD [of "m_frame_buffer p" B']
    by (cases "m_parse_stage p")
       (simp_all add: need_def fire_64 pinv_def ext_nth [of "m_frame_buffer p" B']
          ext_take_drop [of "m_frame_buffer p" B'])
  done

lemma stage_ok_key: "stage_ok 6 check_masking_key"
  unfolding stage_ok_def
  apply (intro conjI allI impI)
  subgoal for p by (cases "m_parse_stage p") (simp_all add: hold_noop)
  subgoal for p by (cases "m_parse_stage p") (simp_all add: need_def parser_defs pinv_def)
  subgoal for p by (cases "m_parse_stage p") (simp_all add: need_def fire_key pinv_def)
  subgoal for p by (cases "m_parse_stage p") (simp_all add: need_def fire_key pinv_def)
  subgoal for p by (cases "m_parse_stage p") (simp_all add: need_def fire_key pinv_def)
  subgoal for p B'
    using extD [of "m_frame_buffer p" B']
    by (cases "m_parse_stage p")
       (simp_all add: need_def fire_key pinv_def ext_nth [of "m_frame_buffer p" B']
          ext_take_drop [of "m_frame_buffer p" B'])
  done

lemma stage_ok_data: "stage_ok 7 check_payload_data"
  unfolding stage_ok_def
  apply (intro conjI allI impI)
  subgoal for p by (cases "m_parse_stage p") (simp_all add: hold_noop)
  subgoal for p by (cases "m_parse_stage p") (auto simp add: need_def parser_defs pinv_def)
  subgoal for p by (cases "m_parse_stage p") (simp_all add: need_def fire_data pinv_def)
  subgoal for p by (cases "m_parse_stage p") (simp_all add: need_def fire_data pinv_def)
  subgoal for p by (cases "m_parse_stage p") (simp_all add: need_def fire_data pinv_def)
  subgoal for p B'
    using extD [of "m_frame_buffer p" B']
    by (cases "m_parse_stage p")
       (simp_all add: need_def fire_data pinv_def ext_nth [of "m_frame_buffer p" B']
          ext_take_drop [of "m_frame_buffer p" B'])
  done


lemma resumable_id: "resumable 8 (\<lambda>p. p)"
  by (simp add: resumable_def)

lemma resumable_step:
  assumes c: "stage_ok k c" and T: "resumable (Suc k) T" and k: "k < 8"
  shows "resumable k (\<lambda>p. T (c p))"
proof -
  have c_noop: "c p = p" if "rank (m_parse_stage p) \<noteq> k" for p
    using c that unfolding stage_ok_def by blast
  have c_hold: "c p = p"
    if "rank (m_parse_stage p) = k" "pinv p" "m_ptr (m_frame_buffer p) < parse_ptr p + need p" for p
    using c that unfolding stage_ok_def by blast
  have c_fire: "k < rank (m_parse_stage (c p)) \<and> pinv (c p) \<and>
           m_frame_buffer (c p) = m_frame_buffer p \<and>
           (\<forall>B'. extends (m_frame_buffer p) B' \<longrightarrow>
                 c (p\<lparr>m_frame_buffer := B'\<rparr>) = (c p)\<lparr>m_frame_buffer := B'\<rparr>)"
    if "rank (m_parse_stage p) = k" "pinv p" "parse_ptr p + need p \<le> m_ptr (m_frame_buffer p)" for p
    using c that unfolding stage_ok_def by blast
  have T_low: "T p = p" if "rank (m_parse_stage p) < Suc k" for p
    using T that unfolding resumable_def by blast
  have T_done: "T p = p" if "m_parse_stage p = DONE" for p
    using T that unfolding resumable_def by blast
  have T_inv: "pinv (T p) \<and> m_frame_buffer (T p) = m_frame_buffer p \<and>
           rank (m_parse_stage p) \<le> rank (m_parse_stage (T p))" if "pinv p" for p
    using T that unfolding resumable_def by blast
  have T_res: "T ((T p)\<lparr>m_frame_buffer := B'\<rparr>) = T (p\<lparr>m_frame_buffer := B'\<rparr>)"
    if "pinv p" "extends (m_frame_buffer p) B'" "Suc k \<le> rank (m_parse_stage p)" for p B'
    using T that unfolding resumable_def by blast
  have c_inv: "pinv (c p) \<and> m_frame_buffer (c p) = m_frame_buffer p \<and>
           rank (m_parse_stage p) \<le> rank (m_parse_stage (c p))" if "pinv p" for p
  proof (cases "rank (m_parse_stage p) = k")
    case False
    then show ?thesis using c_noop that by simp
  next
    case True
    show ?thesis
    proof (cases "parse_ptr p + need p \<le> m_ptr (m_frame_buffer p)")
      case True
      with c_fire [OF \<open>rank (m_parse_stage p) = k\<close> that] \<open>rank (m_parse_stage p) = k\<close>
      show ?thesis by simp
    next
      case False
      then have "c p = p" using c_hold [OF True that] by simp
      then show ?thesis using that by simp
    qed
  qed
  have r1: "T (c p) = p" if "rank (m_parse_stage p) < k" for p
    using that c_noop [of p] T_low [of p] by simp
  have r2: "T (c p) = p" if "m_parse_stage p = DONE" for p
    using that c_noop [of p] T_done [of p] k by simp
  have r3: "pinv (T (c p)) \<and> m_frame_buffer (T (c p)) = m_frame_buffer p \<and>
           rank (m_parse_stage p) \<le> rank (m_parse_stage (T (c p)))" if "pinv p" for p
    using c_inv [OF that] T_inv [of "c p"] by auto
  have r4: "T (c ((T (c p))\<lparr>m_frame_buffer := B'\<rparr>)) = T (c (p\<lparr>m_frame_buffer := B'\<rparr>))"
    if inv: "pinv p" and e: "extends (m_frame_buffer p) B'" and rk: "k \<le> rank (m_parse_stage p)"
    for p B'
  proof -
    consider (above) "k < rank (m_parse_stage p)"
      | (hold) "rank (m_parse_stage p) = k" "m_ptr (m_frame_buffer p) < parse_ptr p + need p"
      | (fire) "rank (m_parse_stage p) = k" "parse_ptr p + need p \<le> m_ptr (m_frame_buffer p)"
      using rk by linarith
    then show ?thesis
    proof cases
      case above
      then have cp: "c p = p" and cp': "c (p\<lparr>m_frame_buffer := B'\<rparr>) = p\<lparr>m_frame_buffer := B'\<rparr>"
        using c_noop [of p] c_noop [of "p\<lparr>m_frame_buffer := B'\<rparr>"] by simp_all
      have "k < rank (m_parse_stage (T p))" using T_inv [OF inv] above by simp
      then have "c ((T p)\<lparr>m_frame_buffer := B'\<rparr>) = (T p)\<lparr>m_frame_buffer := B'\<rparr>"
        using c_noop [of "(T p)\<lparr>m_frame_buffer := B'\<rparr>"] by simp
      then show ?thesis
        using T_res [OF inv e] above by (simp add: cp cp')
    next
      case hold
      then have cp: "c p = p" using c_hold inv by simp
      have "T p = p" using T_low [of p] hold(1) by simp
      then show ?thesis by (simp add: cp)
    next
      case fire
      let ?q = "c p"
      from c_fire [OF fire(1) inv fire(2)]
      have q: "k < rank (m_parse_stage ?q)" "pinv ?q" "m_frame_buffer ?q = m_frame_buffer p"
        and st: "c (p\<lparr>m_frame_buffer := B'\<rparr>) = ?q\<lparr>m_frame_buffer := B'\<rparr>"
        using e by auto
      have "k < rank (m_parse_stage (T ?q))" using T_inv [OF q(2)] q(1) by simp
      then have "c ((T ?q)\<lparr>m_frame_buffer := B'\<rparr>) = (T ?q)\<lparr>m_frame_buffer := B'\<rparr>"
        using c_noop [of "(T ?q)\<lparr>m_frame_buffer := B'\<rparr>"] by simp
      moreover have "T ((T ?q)\<lparr>m_frame_buffer := B'\<rparr>) = T (?q\<lparr>m_frame_buffer := B'\<rparr>)"
        using T_res [OF q(2), of B'] e q(1,3) by simp
      ultimately show ?thesis by (simp add: st)
    qed
  qed
  show ?thesis
    unfolding resumable_def using r1 r2 r3 r4 by blast
qed

lemma resumable_step':
  "stage_ok k c \<Longrightarrow> resumable k' T \<Longrightarrow> k' = Suc k \<Longrightarrow> k < 8 \<Longrightarrow> resumable k (\<lambda>p. T (c p))"
  using resumable_step by simp

lemma resumable_parse_stages: "resumable 0 parse_stages"
proof -
  have r7: "resumable 7 (\<lambda>p. check_payload_data p)"
    by (rule resumable_step' [OF stage_ok_data resumable_id]) simp_all
  have r6: "resumable 6 (\<lambda>p. check_payload_data (check_masking_key p))"
    by (rule resumable_step' [OF stage_ok_key r7]) simp_all
  have r5: "resumable 5 (\<lambda>p. check_payload_data (check_masking_key
              (check_extended_payload_len_64 p)))"
    by (rule resumable_step' [OF stage_ok_64 r6]) simp_all
  have r4: "resumable 4 (\<lambda>p. check_payload_data (check_masking_key
              (check_extended_payload_len_64 (check_extended_payload_len_16 p))))"
    by (rule resumable_step' [OF stage_ok_16 r5]) simp_all
  have r3: "resumable 3 (\<lambda>p. check_payload_data (check_masking_key
              (check_extended_payload_len_64 (check_extended_payload_len_16
                (check_payload_len p)))))"
    by (rule resumable_step' [OF stage_ok_len r4]) simp_all
  have r2: "resumable 2 (\<lambda>p. check_payload_data (check_masking_key
              (check_extended_payload_len_64 (check_extended_payload_len_16
                (check_payload_len (check_mask_bit p))))))"
    by (rule resumable_step' [OF stage_ok_mask r3]) simp_all
  have r1: "resumable 1 (\<lambda>p. check_payload_data (check_masking_key
              (check_extended_payload_len_64 (check_extended_payload_len_16
                (check_payload_len (check_mask_bit (check_opcode p)))))))"
    by (rule resumable_step' [OF stage_ok_opcode r2]) simp_all
  have r0: "resumable 0 (\<lambda>p. check_payload_data (check_masking_key
              (check_extended_payload_len_64 (check_extended_payload_len_16
                (check_payload_len (check_mask_bit (check_opcode (check_fin_bit p))))))))"
    by (rule resumable_step' [OF stage_ok_fin r1]) simp_all
  have "parse_stages = (\<lambda>p. check_payload_data (check_masking_key (check_extended_payload_len_64
       (check_extended_payload_len_16 (check_payload_len (check_mask_bit
         (check_opcode (check_fin_bit p))))))))"
    by (rule ext) (simp add: parse_stages_def)
  then show ?thesis using r0 by simp
qed


lemma parse_resume:
  "pinv p \<Longrightarrow> extends (m_frame_buffer p) B' \<Longrightarrow>
   parse_stages ((parse_stages p)\<lparr>m_frame_buffer := B'\<rparr>) = parse_stages (p\<lparr>m_frame_buffer := B'\<rparr>)"
  using resumable_parse_stages unfolding resumable_def by simp

lemma parse_done_stable: "m_parse_stage p = DONE \<Longrightarrow> parse_stages p = p"
  using resumable_parse_stages unfolding resumable_def by simp

lemma parse_buffer: "pinv p \<Longrightarrow> m_frame_buffer (parse_stages p) = m_frame_buffer p"
  using resumable_parse_stages unfolding resumable_def by simp

lemma parse_done_mono:
  assumes "pinv p" "extends (m_frame_buffer p) B'" "m_parse_stage (parse_stages p) = DONE"
  shows "parse_stages (p\<lparr>m_frame_buffer := B'\<rparr>) = (parse_stages p)\<lparr>m_frame_buffer := B'\<rparr>"
proof -
  have "m_parse_stage ((parse_stages p)\<lparr>m_frame_buffer := B'\<rparr>) = DONE"
    using assms(3) by simp
  then show ?thesis
    using parse_resume [OF assms(1,2)] parse_done_stable by simp
qed

lemma pushed_props:
  assumes "m_ptr B \<le> capacity B"
  shows "view (pushed B v) = view B @ v"
    "m_ptr (pushed B v) = m_ptr B + length v"
    "m_ptr B + length v \<le> capacity (pushed B v)"
  using assms
  by (simp_all add: pushed_def ensure_extra_space_def capacity_ensure_fit)


lemma pinv_pushed:
  "pinv p \<Longrightarrow> pinv (p\<lparr>m_frame_buffer := pushed (m_frame_buffer p) v\<rparr>)"
  unfolding pushed_def by (rule pinv_with_appended)

lemma extends_pushed:
  assumes "m_ptr B \<le> capacity B"
  shows "extends B (pushed B v)"
  using assms pushed_props [OF assms, of v]
  by (simp add: extends_def view_def capacity_def)

lemma extends_same_view:
  assumes "m_ptr B1 \<le> capacity B1" "m_ptr B2 \<le> capacity B2" "view B1 = view B2"
  shows "extends B1 B2"
proof -
  have "m_ptr B1 = m_ptr B2"
    using length_view [OF assms(1)] length_view [OF assms(2)] assms(3) by simp
  then show ?thesis using assms by (simp add: extends_def view_def capacity_def)
qed

lemma extends_longer_view:
  assumes "m_ptr B1 \<le> capacity B1" "m_ptr B2 \<le> capacity B2" "view B2 = view B1 @ w"
  shows "extends B1 B2"
proof -
  have "m_ptr B2 = m_ptr B1 + length w"
    using length_view [OF assms(1)] length_view [OF assms(2)] assms(3) by simp
  moreover have "length (view B1) = m_ptr B1" using length_view [OF assms(1)] .
  ultimately show ?thesis using assms by (simp add: extends_def)
qed

lemma update_step:
  assumes "pinv p" "m_parse_stage p \<noteq> DONE" "v \<noteq> []"
  shows "update v p = Some (parse (p\<lparr>m_frame_buffer := pushed (m_frame_buffer p) v\<rparr>))"
proof -
  have nd: "(if is_done p then FrameParser_reset p else Some p) = Some p"
    using assms(2) by (simp add: is_done_def)
  have "m_ptr (pushed (m_frame_buffer p) v) = m_ptr (m_frame_buffer p) + length v"
    using assms(1) by (intro pushed_props(2)) (simp add: pinv_def)
  then have r: "remaining (p\<lparr>m_frame_buffer := pushed (m_frame_buffer p) v\<rparr>) \<noteq> 0"
    using assms(1,3) by (cases v) (auto simp add: remaining_def FrameBuffer_size_def pinv_def)
  show ?thesis
    unfolding update_unfold [OF nd] pushed_def [symmetric]
    using assms(3) r by simp
qed

lemma parse_result_cong:
  assumes i1: "pinv (p\<lparr>m_frame_buffer := B1\<rparr>)" and i2: "pinv (p\<lparr>m_frame_buffer := B2\<rparr>)"
    and v: "view B1 = view B2"
  shows "fst (parse (p\<lparr>m_frame_buffer := B1\<rparr>)) = fst (parse (p\<lparr>m_frame_buffer := B2\<rparr>))"
proof -
  let ?q1 = "parse_stages (p\<lparr>m_frame_buffer := B1\<rparr>)"
  let ?q2 = "parse_stages (p\<lparr>m_frame_buffer := B2\<rparr>)"
  have c1: "m_ptr B1 \<le> capacity B1" and c2: "m_ptr B2 \<le> capacity B2"
    using i1 i2 by (simp_all add: pinv_def)
  have e12: "extends (m_frame_buffer (p\<lparr>m_frame_buffer := B1\<rparr>)) B2"
    using extends_same_view [OF c1 c2 v] by simp
  have e21: "extends (m_frame_buffer (p\<lparr>m_frame_buffer := B2\<rparr>)) B1"
    using extends_same_view [OF c2 c1 v [symmetric]] by simp
  have a: "?q2 = ?q1\<lparr>m_frame_buffer := B2\<rparr>" if "m_parse_stage ?q1 = DONE"
    using parse_done_mono [OF i1 e12 that] by simp
  have b: "?q1 = ?q2\<lparr>m_frame_buffer := B1\<rparr>" if "m_parse_stage ?q2 = DONE"
    using parse_done_mono [OF i2 e21 that] by simp
  show ?thesis
  proof (cases "m_parse_stage ?q1 = DONE")
    case True
    then show ?thesis using a [OF True] by (simp add: parse_def is_done_def Let_def)
  next
    case False
    have "m_parse_stage ?q2 \<noteq> DONE"
    proof
      assume d: "m_parse_stage ?q2 = DONE"
      from b [OF d] have "m_parse_stage ?q1 = m_parse_stage (?q2\<lparr>m_frame_buffer := B1\<rparr>)"
        by simp
      with d False show False by simp
    qed
    with False show ?thesis by (simp add: parse_def is_done_def Let_def)
  qed
qed

section \<open>Chunked delivery\<close>

lemma feed_total:
  "pinv p \<Longrightarrow> \<exists>rs. feed chunks p = Some rs \<and> length rs = length chunks"
proof (induction chunks arbitrary: p)
  case Nil
  then show ?case by simp
next
  case (Cons c cs)
  from update_pinv [OF Cons.prems, of c] obtain r p' where
    u: "update c p = Some (r, p')" and i: "pinv p'" by blast
  from Cons.IH [OF i] obtain rs where "feed cs p' = Some rs" "length rs = length cs" by blast
  with u show ?case by simp
qed

lemma parse_snd: "snd (parse p) = parse_stages p"
  by (simp add: parse_def Let_def)

lemma parse_fst_Some:
  "(fst (parse p) = Some fr) = (m_parse_stage (parse_stages p) = DONE \<and> fr = m_frame (parse_stages p))"
  by (auto simp add: parse_def Let_def is_done_def)

lemma parse_fst_None:
  "(fst (parse p) = None) = (m_parse_stage (parse_stages p) \<noteq> DONE)"
  by (auto simp add: parse_def Let_def is_done_def)

lemma feed_chunks:
  assumes "chunks \<noteq> []" "\<forall>c\<in>set chunks. c \<noteq> []" "pinv p" "m_parse_stage p \<noteq> DONE"
  shows "\<exists>rs. feed chunks p = Some rs \<and>
     (case fst (parse (p\<lparr>m_frame_buffer := pushed (m_frame_buffer p) (concat chunks)\<rparr>)) of
        None \<Rightarrow> rs = replicate (length chunks) None
      | Some fr \<Rightarrow> (\<exists>k rest. rs = replicate k None @ Some fr # rest))"
  using assms
proof (induction chunks arbitrary: p rule: list_nonempty_induct)
  case (single c)
  then have "update c p = Some (parse (p\<lparr>m_frame_buffer := pushed (m_frame_buffer p) c\<rparr>))"
    by (intro update_step) simp_all
  then have "feed [c] p = Some [fst (parse (p\<lparr>m_frame_buffer := pushed (m_frame_buffer p) c\<rparr>))]"
    by (simp add: split_beta)
  then show ?case
    by (cases "fst (parse (p\<lparr>m_frame_buffer := pushed (m_frame_buffer p) c\<rparr>))")
       (auto intro: exI [of _ 0])
next
  case (cons c cs)
  let ?B = "m_frame_buffer p"
  let ?B1 = "pushed ?B c"
  let ?Ball = "pushed ?B (concat (c # cs))"
  let ?p1 = "p\<lparr>m_frame_buffer := ?B1\<rparr>"
  let ?q1 = "parse_stages ?p1"
  have cB: "m_ptr ?B \<le> capacity ?B" using cons.prems(2) by (simp add: pinv_def)
  have i1: "pinv ?p1" using cons.prems(2) by (rule pinv_pushed)
  have iall: "pinv (p\<lparr>m_frame_buffer := ?Ball\<rparr>)" using cons.prems(2) by (rule pinv_pushed)
  have c1: "m_ptr ?B1 \<le> capacity ?B1" using i1 by (simp add: pinv_def)
  have call: "m_ptr ?Ball \<le> capacity ?Ball" using iall by (simp add: pinv_def)
  have u: "update c p = Some (parse ?p1)"
    using cons.prems by (intro update_step) simp_all
  have e1all: "extends (m_frame_buffer ?p1) ?Ball"
    using extends_longer_view [OF c1 call, of "concat cs"]
    by (simp add: pushed_props(1) [OF cB])
  have iq1: "pinv ?q1" using i1 by (rule pinv_parse_stages)
  have bq1: "m_frame_buffer ?q1 = ?B1" using parse_buffer [OF i1] by simp
  from feed_total [OF iq1, of cs] obtain rs' where
    f': "feed cs ?q1 = Some rs'" and l': "length rs' = length cs" by blast
  have f: "feed (c # cs) p = Some (fst (parse ?p1) # rs')"
    using u f' by (simp add: split_beta parse_snd)
  show ?case
  proof (cases "m_parse_stage ?q1 = DONE")
    case True
    have "parse_stages (p\<lparr>m_frame_buffer := ?Ball\<rparr>) = ?q1\<lparr>m_frame_buffer := ?Ball\<rparr>"
      using parse_done_mono [OF i1 e1all True] by simp
    then have "fst (parse (p\<lparr>m_frame_buffer := ?Ball\<rparr>)) = Some (m_frame ?q1)"
      using True by (simp add: parse_def Let_def is_done_def)
    moreover have "fst (parse ?p1) = Some (m_frame ?q1)"
      using True by (simp add: parse_fst_Some)
    ultimately show ?thesis
      using f by (auto intro: exI [of _ 0])
  next
    case False
    let ?B2 = "pushed ?B1 (concat cs)"
    have n1: "fst (parse ?p1) = None" using False by (simp add: parse_fst_None)
    have all: "\<forall>c\<in>set cs. c \<noteq> []" using cons.prems(1) by simp
    from cons.IH [OF all iq1 False] obtain rs'' where
      g: "feed cs ?q1 = Some rs''" and
      ih': "(case fst (parse (?q1\<lparr>m_frame_buffer := pushed (m_frame_buffer ?q1) (concat cs)\<rparr>)) of
        None \<Rightarrow> rs'' = replicate (length cs) None
      | Some fr \<Rightarrow> (\<exists>k rest. rs'' = replicate k None @ Some fr # rest))"
      by blast
    have rs: "rs'' = rs'" using f' g by simp
    note ih = ih' [unfolded rs]
    have e12: "extends (m_frame_buffer ?p1) ?B2"
      using extends_pushed [OF c1, of "concat cs"] by simp
    have r: "parse_stages (?q1\<lparr>m_frame_buffer := ?B2\<rparr>) = parse_stages (p\<lparr>m_frame_buffer := ?B2\<rparr>)"
      using parse_resume [OF i1 e12] by simp
    have i2: "pinv (p\<lparr>m_frame_buffer := ?B2\<rparr>)"
      using pinv_pushed [OF i1, of "concat cs"] by simp
    have v: "view ?B2 = view ?Ball"
      by (simp add: pushed_props(1) [OF cB] pushed_props(1) [OF c1])
    have "fst (parse (?q1\<lparr>m_frame_buffer := ?B2\<rparr>)) = fst (parse (p\<lparr>m_frame_buffer := ?B2\<rparr>))"
      using r by (simp add: parse_def Let_def)
    also have "\<dots> = fst (parse (p\<lparr>m_frame_buffer := ?Ball\<rparr>))"
      by (rule parse_result_cong [OF i2 iall v])
    finally have eq: "fst (parse (?q1\<lparr>m_frame_buffer := pushed (m_frame_buffer ?q1) (concat cs)\<rparr>))
         = fst (parse (p\<lparr>m_frame_buffer := ?Ball\<rparr>))"
      by (simp add: bq1)
    show ?thesis
    proof (cases "fst (parse (p\<lparr>m_frame_buffer := ?Ball\<rparr>))")
      case None
      then show ?thesis using ih eq f n1 by simp
    next
      case (Some fr)
      then obtain k rest where "rs' = replicate k None @ Some fr # rest"
        using ih eq by auto
      then have "fst (parse ?p1) # rs' = replicate (Suc k) None @ Some fr # rest"
        using n1 by simp
      then have "\<exists>k' rest'. fst (parse ?p1) # rs' = replicate k' None @ Some fr # rest'"
        by blast
      then show ?thesis using f Some by simp
    qed
  qed
qed


lemma pushed_init: "pushed (m_frame_buffer (FrameParser_init f0)) v = fresh_buffer v"
  by (simp add: pushed_def fresh_buffer_def FrameParser_init_def)

lemma update_empty_init:
  "update [] (FrameParser_init f0) = Some (None, FrameParser_init f0)"
proof -
  have nd: "(if is_done (FrameParser_init f0) then FrameParser_reset (FrameParser_init f0)
             else Some (FrameParser_init f0)) = Some (FrameParser_init f0)"
    by (simp add: is_done_def FrameParser_init_def)
  show ?thesis
    unfolding update_unfold [OF nd]
    by (simp add: remaining_def FrameBuffer_size_def FrameParser_init_def)
qed

text \<open>
  Chunked against whole, both from the same initial parser: if one \<open>update\<close> call
  with the whole sequence returns a frame, the chunked calls report "incomplete" \<open>k\<close>
  times and then return that frame; if the one call reports "incomplete", so does
  every chunked call.
\<close>

lemma chunked_same_start:
  assumes "\<forall>c\<in>set chunks. c \<noteq> []"
  shows "\<exists>rs r p'.
     feed chunks (FrameParser_init f0) = Some rs \<and>
     update (concat chunks) (FrameParser_init f0) = Some (r, p') \<and>
     (case r of None \<Rightarrow> rs = replicate (length chunks) None
      | Some fr \<Rightarrow> (\<exists>k rest. rs = replicate k None @ Some fr # rest))"
proof (cases "chunks = []")
  case True
  then show ?thesis by (simp add: update_empty_init)
next
  case False
  let ?p0 = "FrameParser_init f0"
  have nd: "m_parse_stage ?p0 \<noteq> DONE" by (simp add: FrameParser_init_def)
  from feed_chunks [OF False assms pinv_init nd] obtain rs where
    f: "feed chunks ?p0 = Some rs" and
    c: "(case fst (parse (?p0\<lparr>m_frame_buffer := pushed (m_frame_buffer ?p0) (concat chunks)\<rparr>)) of
        None \<Rightarrow> rs = replicate (length chunks) None
      | Some fr \<Rightarrow> (\<exists>k rest. rs = replicate k None @ Some fr # rest))"
    by blast
  have ne: "concat chunks \<noteq> []" using False assms by (cases chunks) auto
  have u: "update (concat chunks) ?p0 =
     Some (parse (?p0\<lparr>m_frame_buffer := pushed (m_frame_buffer ?p0) (concat chunks)\<rparr>))"
    using update_fresh [OF ne, of f0] by (simp add: pushed_init)
  show ?thesis
    apply (rule exI [of _ rs])
    apply (rule exI [of _ "fst (parse (?p0\<lparr>m_frame_buffer := pushed (m_frame_buffer ?p0) (concat chunks)\<rparr>))"])
    apply (rule exI [of _ "snd (parse (?p0\<lparr>m_frame_buffer := pushed (m_frame_buffer ?p0) (concat chunks)\<rparr>))"])
    using f u c apply simp
    done
qed

lemma hi_bytes:
  "frame_bytes hi_frame = [0x81, 0x02, 0x48, 0x69]"
  by (simp add: hi_frame_def frame_bytes_def length_bytes_def payload_bytes_def TEXT_def)

lemma decoded_hi: "decoded_frame hi_frame g = hi_frame\<lparr>masking_key := masking_key g\<rparr>"
  by (simp add: hi_frame_def decoded_frame_def wire_payload_def TEXT_def)

lemma feed_prefix:
  "feed (xs @ ys) p = Some rs \<Longrightarrow> feed xs p = Some (take (length xs) rs)"
proof (induction xs arbitrary: p rs)
  case Nil
  then show ?case by simp
next
  case (Cons x xs)
  from Cons.prems obtain r p' rs' where
    u: "update x p = Some (r, p')" and f: "feed (xs @ ys) p' = Some rs'" and rs: "rs = r # rs'"
    by (auto split: option.splits prod.splits)
  from Cons.IH [OF f] u rs show ?case by simp
qed

lemma no_early_completion:
  assumes n: "length (payload f) < 2 ^ 31"
    and pre: "frame_bytes f = pre @ suf" "pre \<noteq> []" "suf \<noteq> []"
  shows "fst (parse ((FrameParser_init f0)\<lparr>m_frame_buffer := fresh_buffer pre\<rparr>)) = None"
proof -
  let ?p0 = "FrameParser_init f0"
  let ?p = "?p0\<lparr>m_frame_buffer := fresh_buffer pre\<rparr>"
  let ?q = "parse_stages ?p"
  have i: "pinv ?p"
    using fresh_buffer_props(3) [of pre]
    by (simp add: pinv_def fresh_buffer_props(2) FrameParser_init_def)
  have "m_parse_stage ?q \<noteq> DONE"
  proof
    assume d: "m_parse_stage ?q = DONE"
    have c1: "m_ptr (fresh_buffer pre) \<le> capacity (fresh_buffer pre)"
      using fresh_buffer_props(3) [of pre] by (simp add: fresh_buffer_props(2))
    have c2: "m_ptr (fresh_buffer (frame_bytes f)) \<le> capacity (fresh_buffer (frame_bytes f))"
      using fresh_buffer_props(3) [of "frame_bytes f"] by (simp add: fresh_buffer_props(2))
    have e: "extends (m_frame_buffer ?p) (fresh_buffer (frame_bytes f))"
      using extends_longer_view [OF c1 c2, of suf] pre(1)
      by (simp add: fresh_buffer_props(1))
    have "parse_stages (?p\<lparr>m_frame_buffer := fresh_buffer (frame_bytes f)\<rparr>)
            = ?q\<lparr>m_frame_buffer := fresh_buffer (frame_bytes f)\<rparr>"
      by (rule parse_done_mono [OF i e d])
    moreover have "parse_ptr (parse_stages (?p0\<lparr>m_frame_buffer := fresh_buffer (frame_bytes f)\<rparr>))
            = length (frame_bytes f)"
      using parse_frame_bytes [of "?p0\<lparr>m_frame_buffer := fresh_buffer (frame_bytes f)\<rparr>" f "[]"] n c2
      by (simp add: FrameParser_init_def fresh_buffer_props(1))
    ultimately have "parse_ptr ?q = length (frame_bytes f)" by simp
    moreover have "parse_ptr ?q \<le> length pre"
      using pinv_parse_stages [OF i] parse_buffer [OF i]
      by (simp add: pinv_def fresh_buffer_props(2))
    ultimately show False using pre by simp
  qed
  then show ?thesis by (simp add: parse_fst_None)
qed

text \<open>
  For the wire image of a frame with fewer than \<open>2^31\<close> payload bytes, split into
  non-empty chunks, every call but the last reports "incomplete" and the last call
  returns the frame.
\<close>

theorem chunked_frame_completes_on_last_call:
  assumes ne: "\<forall>c\<in>set chunks. c \<noteq> []"
    and cc: "concat chunks = frame_bytes f"
    and n: "length (payload f) < 2 ^ 31"
  shows "feed chunks (FrameParser_init f0)
           = Some (replicate (length chunks - 1) None @ [Some (decoded_frame f f0)])"
proof -
  let ?p0 = "FrameParser_init f0"
  have nd: "m_parse_stage ?p0 \<noteq> DONE" by (simp add: FrameParser_init_def)
  have cne: "chunks \<noteq> []" using cc by (auto simp add: frame_bytes_def)
  from feed_total [OF pinv_init, of chunks f0] obtain rs where
    f: "feed chunks ?p0 = Some rs" and l: "length rs = length chunks" by blast
  have one: "fst (parse (?p0\<lparr>m_frame_buffer := pushed (m_frame_buffer ?p0) (concat chunks)\<rparr>))
               = Some (decoded_frame f f0)"
  proof -
    have fne: "frame_bytes f \<noteq> []" by (simp add: frame_bytes_def)
    have "Some (parse (?p0\<lparr>m_frame_buffer := fresh_buffer (frame_bytes f)\<rparr>)) =
          Some (Some (decoded_frame f f0),
                 \<lparr>m_parse_stage = DONE, m_frame = decoded_frame f f0,
                  m_frame_buffer = fresh_buffer (frame_bytes f @ []),
                  m_payload_len = of_nat (length (payload f)),
                  parse_ptr = length (frame_bytes f)\<rparr>)"
      using update_fresh_frame [OF n, of "[]" f0] update_fresh [OF fne, of f0] by simp
    then show ?thesis by (simp add: pushed_init cc)
  qed
  from feed_chunks [OF cne ne pinv_init nd] f one obtain k rest where
    rs: "rs = replicate k None @ Some (decoded_frame f f0) # rest"
    by auto
  have k: "k < length chunks" using rs l by simp
  have "rest = []"
  proof (rule ccontr)
    assume "rest \<noteq> []"
    then have k2: "Suc k < length chunks" using rs l by (cases rest) auto
    let ?xs = "take (Suc k) chunks"
    let ?ys = "drop (Suc k) chunks"
    have split: "chunks = ?xs @ ?ys" by simp
    have xs_ne: "?xs \<noteq> []" using cne by simp
    have xs_all: "\<forall>c\<in>set ?xs. c \<noteq> []" using ne by (meson in_set_takeD)
    have ys_ne: "?ys \<noteq> []" using k2 by simp
    have "concat ?ys \<noteq> []"
    proof -
      obtain y ys' where y: "?ys = y # ys'" using ys_ne by (cases ?ys) auto
      then have "y \<in> set chunks" by (metis in_set_dropD list.set_intros(1))
      then have "y \<noteq> []" using ne by blast
      then show ?thesis using y by simp
    qed
    moreover have "concat ?xs \<noteq> []"
    proof -
      obtain x xs' where x: "?xs = x # xs'" using xs_ne by (cases ?xs) auto
      then have "x \<in> set ?xs" by simp
      then have "x \<noteq> []" using xs_all by blast
      then show ?thesis using x by simp
    qed
    moreover have "frame_bytes f = concat ?xs @ concat ?ys"
      using cc by (metis append_take_drop_id concat_append)
    ultimately have none:
      "fst (parse (?p0\<lparr>m_frame_buffer := fresh_buffer (concat ?xs)\<rparr>)) = None"
      using no_early_completion [OF n] by blast
    from feed_chunks [OF xs_ne xs_all pinv_init nd] none obtain rs1 where
      "feed ?xs ?p0 = Some rs1" "rs1 = replicate (length ?xs) None"
      by (auto simp add: pushed_init)
    moreover have "feed ?xs ?p0 = Some (take (length ?xs) rs)"
      using feed_prefix [of ?xs ?ys ?p0 rs] f by simp
    ultimately have "take (Suc k) rs = replicate (Suc k) None"
      using k2 by simp
    then have "take (Suc k) rs ! k = replicate (Suc k) None ! k" by (simp only:)
    then have "take (Suc k) rs ! k = None" by (simp only: nth_replicate lessI)
    moreover have "take (Suc k) rs ! k = Some (decoded_frame f f0)"
      using rs by (simp add: nth_append)
    ultimately show False by simp
  qed
  then show ?thesis using f rs l by simp
qed

text \<open>The README's scenario: \<open>0x81 0x02 0x48\<close>, then \<open>0x69\<close>.\<close>

lemma partial_then_rest:
  "feed [ [0x81, 0x02, 0x48], [0x69] ] (FrameParser_init f0)
     = Some [None, Some (decoded_frame hi_frame f0)]"
  using chunked_frame_completes_on_last_call [of "[ [0x81, 0x02, 0x48], [0x69] ]" hi_frame f0]
  by (simp add: hi_bytes) (simp add: hi_frame_def)

section \<open>Extended lengths, byte by byte\<close>

text \<open>Where the convention of \<open>shl_int\<close> for counts of 32 and more matters: not for
  a zero byte, and not for the four low length bytes, whose counts are below 32.\<close>

lemma shl_int_zero: "shl_int 0 n = 0"
  by (simp add: shl_int_def)

lemma shl_int_in_range: "n < 32 \<Longrightarrow> shl_int x n = push_bit n x"
  by (simp add: shl_int_def)

lemma unat_u8_less: "unat (x :: u8) < 256"
  using unsigned_less [of x, where ?'a = nat] by simp

lemma be16_value:
  "push_bit 8 (ucast (l :: u8) :: u64) OR ucast (r :: u8) = of_nat (256 * unat l + unat r)"
proof -
  let ?n = "256 * unat l + unat r"
  have l: "unat l < 256" and r: "unat r < 256"
    by (rule unat_u8_less)+
  have n: "?n \<le> 0xFFFF" using l r by simp
  have hi: "drop_bit 8 ?n AND 0xFF = unat l"
    using l r by (simp add: and_FF_nat drop_bit_eq_div take_bit_eq_mod)
  have lo: "?n AND 0xFF = unat r"
    using r by (simp add: and_FF_nat take_bit_eq_mod)
  have "(of_nat (unat l) :: u8) = l" "(of_nat (unat r) :: u8) = r" by simp_all
  then show ?thesis using len16 [OF n] by (simp only: hi lo)
qed

text \<open>Base length 126: the length the parser uses is the 16-bit big-endian value of
  the next two bytes.\<close>

lemma extended_length_16_big_endian:
  assumes "m_parse_stage p = EXTENDED_PAYLOAD_LEN_16" "pinv p" "2 \<le> remaining p"
  shows "unat (m_payload_len (check_extended_payload_len_16 p)) =
           256 * unat (m_buf (m_frame_buffer p) ! parse_ptr p)
             + unat (m_buf (m_frame_buffer p) ! (parse_ptr p + 1))"
proof -
  let ?l = "m_buf (m_frame_buffer p) ! parse_ptr p"
  let ?r = "m_buf (m_frame_buffer p) ! (parse_ptr p + 1)"
  have "256 * unat ?l + unat ?r < 2 ^ 64"
    using unat_u8_less [of ?l] unat_u8_less [of ?r] by simp
  then have "unat (of_nat (256 * unat ?l + unat ?r) :: u64) = 256 * unat ?l + unat ?r"
    by (rule unat_of_nat_u64)
  then show ?thesis
    using assms by (simp add: parser_defs be16_value)
qed

text \<open>Base length 127 with the length bytes \<open>00 00 00 01 00 00 00 00\<close> (the
  integer \<open>2^32\<close>): with the shift count taken modulo 32 the parser uses length 1.\<close>

lemma extended_length_64_high_bytes_folded:
  "\<exists>p. update [0x82, 0x7F, 0, 0, 0, 1, 0, 0, 0, 0] (FrameParser_init f0) = Some (None, p) \<and>
        m_payload_len p = 1"
proof -
  let ?v = "[0x82, 0x7F, 0, 0, 0, 1, 0, 0, 0, 0] :: bytes"
  let ?lb = "[0x7F, 0, 0, 0, 1, 0, 0, 0, 0] :: bytes"
  let ?p = "(FrameParser_init f0)\<lparr>m_frame_buffer := fresh_buffer ?v\<rparr>"
  have dl: "decoded_len ?lb = 1"
    by (simp add: decoded_len_def decode_len64_def shl_int_def)
  have "m_parse_stage (parse_stages ?p) \<noteq> DONE \<and>
         m_payload_len (parse_stages ?p) = decoded_len ?lb"
    using fresh_buffer_props(3) [of ?v]
    by (intro parse_incomplete [where ?b0.0 = "0x82" and rest = "[]"])
       (simp_all add: FrameParser_init_def fresh_buffer_props(1,2) dl)
  then show ?thesis
    unfolding update_fresh [of ?v, simplified] dl
    by (simp add: parse_def is_done_def)
qed

section \<open>The indeterminate initial frame\<close>

lemma alike_fin: "alike p q \<Longrightarrow> alike (check_fin_bit p) (check_fin_bit q)"
  by (cases "m_parse_stage p") (auto simp add: alike_def agree_def parser_defs)
lemma alike_opcode: "alike p q \<Longrightarrow> alike (check_opcode p) (check_opcode q)"
  by (cases "m_parse_stage p") (auto simp add: alike_def agree_def parser_defs)
lemma alike_mask: "alike p q \<Longrightarrow> alike (check_mask_bit p) (check_mask_bit q)"
  by (cases "m_parse_stage p") (auto simp add: alike_def agree_def parser_defs)
lemma alike_len: "alike p q \<Longrightarrow> alike (check_payload_len p) (check_payload_len q)"
  by (cases "m_parse_stage p") (auto simp add: alike_def agree_def parser_defs Let_def)
lemma alike_16: "alike p q \<Longrightarrow> alike (check_extended_payload_len_16 p) (check_extended_payload_len_16 q)"
  by (cases "m_parse_stage p") (auto simp add: alike_def agree_def parser_defs)
lemma alike_64: "alike p q \<Longrightarrow> alike (check_extended_payload_len_64 p) (check_extended_payload_len_64 q)"
  by (cases "m_parse_stage p")
     (auto simp add: alike_def agree_def check_extended_payload_len_64_def remaining_def
        FrameBuffer_size_def after_length_def loop64_unrolled Let_def)
lemma alike_key: "alike p q \<Longrightarrow> alike (check_masking_key p) (check_masking_key q)"
  by (cases "m_parse_stage p") (auto simp add: alike_def agree_def parser_defs)
lemma alike_data: "alike p q \<Longrightarrow> alike (check_payload_data p) (check_payload_data q)"
  by (cases "m_parse_stage p") (auto simp add: alike_def agree_def parser_defs)

lemma alike_parse_stages: "alike p q \<Longrightarrow> alike (parse_stages p) (parse_stages q)"
  unfolding parse_stages_def
  by (intro alike_fin alike_opcode alike_mask alike_len alike_16 alike_64 alike_key alike_data)

lemma alike_done: "alike p q \<Longrightarrow> m_parse_stage p = DONE \<Longrightarrow> same_frame (m_frame p) (m_frame q)"
  by (simp add: alike_def agree_def same_frame_def)

text \<open>
  The indeterminate initial \<open>m_frame\<close> of a new parser does not show in what
  \<open>update\<close> returns, up to the key of an unmasked frame.
\<close>

theorem initial_frame_irrelevant:
  "\<exists>r1 p1 r2 p2.
     update v (FrameParser_init f0) = Some (r1, p1) \<and>
     update v (FrameParser_init g0) = Some (r2, p2) \<and>
     (case r1 of None \<Rightarrow> r2 = None
      | Some a \<Rightarrow> (\<exists>b. r2 = Some b \<and> same_frame a b))"
proof (cases "v = []")
  case True
  then show ?thesis by (simp add: update_empty_init)
next
  case False
  let ?p = "(FrameParser_init f0)\<lparr>m_frame_buffer := fresh_buffer v\<rparr>"
  let ?q = "(FrameParser_init g0)\<lparr>m_frame_buffer := fresh_buffer v\<rparr>"
  have "alike ?p ?q" by (simp add: alike_def agree_def FrameParser_init_def)
  then have a: "alike (parse_stages ?p) (parse_stages ?q)" by (rule alike_parse_stages)
  then have s: "m_parse_stage (parse_stages ?p) = m_parse_stage (parse_stages ?q)"
    by (simp add: alike_def)
  show ?thesis
    unfolding update_fresh [OF False]
    using s alike_done [OF a] by (simp add: parse_def Let_def is_done_def)
qed

section \<open>Chunked delivery on two new parsers\<close>

text \<open>
  C2. The claim: the frame that the chunked calls return equals, in \<open>fin\<close>, opcode,
  \<open>mask\<close>, \<open>masking_key\<close> and payload bytes, the frame that one call with the whole
  sequence returns. The frame "Hi" of the README is not masked, so
  \<open>check_masking_key\<close> writes no key and the returned frame carries the key bytes
  that the uninitialised \<open>m_frame\<close> of its parser held. Fed in the chunks
  \<open>81 02 48\<close> and \<open>69\<close> to one new parser and whole to another, the two returned
  frames differ in \<open>masking_key\<close>, so the claim fails.
\<close>

theorem unmasked_key_not_invariant:
  "feed [ [0x81, 0x02, 0x48], [0x69] ] (FrameParser_init init_frame_a)
     = Some [None, Some (hi_frame\<lparr>masking_key := [0xA7, 0xFC, 0x7F, 0x00]\<rparr>)] \<and>
   map_option fst (update [0x81, 0x02, 0x48, 0x69] (FrameParser_init init_frame_b))
     = Some (Some (hi_frame\<lparr>masking_key := [0x9B, 0x7E, 0x55, 0x00]\<rparr>)) \<and>
   hi_frame\<lparr>masking_key := [0xA7, 0xFC, 0x7F, 0x00]\<rparr>
     \<noteq> hi_frame\<lparr>masking_key := [0x9B, 0x7E, 0x55, 0x00]\<rparr>"
proof -
  have n: "length (payload hi_frame) < 2 ^ 31" by (simp add: hi_frame_def)
  have 1: "feed [ [0x81, 0x02, 0x48], [0x69] ] (FrameParser_init init_frame_a)
     = Some [None, Some (hi_frame\<lparr>masking_key := [0xA7, 0xFC, 0x7F, 0x00]\<rparr>)]"
    using partial_then_rest [of init_frame_a] by (simp add: decoded_hi init_frame_a_def)
  have 2: "map_option fst (update [0x81, 0x02, 0x48, 0x69] (FrameParser_init init_frame_b))
     = Some (Some (hi_frame\<lparr>masking_key := [0x9B, 0x7E, 0x55, 0x00]\<rparr>))"
    using update_fresh_frame [OF n, of "[]" init_frame_b]
    by (simp add: hi_bytes decoded_hi init_frame_b_def)
  have 3: "hi_frame\<lparr>masking_key := [0xA7, 0xFC, 0x7F, 0x00]\<rparr>
     \<noteq> hi_frame\<lparr>masking_key := [0x9B, 0x7E, 0x55, 0x00]\<rparr>"
    by (simp add: hi_frame_def)
  from 1 2 3 show ?thesis by simp
qed

text \<open>
  C2, as amended. A byte sequence is split in any way into non-empty chunks. The chunks
  are fed to a new parser by successive \<open>update\<close> calls, and the whole sequence to
  another new parser in one call; \<open>f0\<close> and \<open>g0\<close> are what the uninitialised
  \<open>m_frame\<close> of the two parsers holds. Every call returns. If the one call returns a
  frame, the chunked calls report "incomplete" \<open>k\<close> times and the next call returns a
  frame with the same \<open>fin\<close>, opcode, \<open>mask\<close> and payload bytes, and the same key
  when the frame is masked (\<open>same_frame\<close>); if the one call reports "incomplete", so
  does every chunked call. When the sequence is the wire image of a frame \<open>f\<close> with
  fewer than \<open>2^31\<close> payload bytes, the completing call is the last one: every
  earlier call reports "incomplete", the last returns \<open>decoded_frame f f0\<close>, and the
  one call returns \<open>decoded_frame f g0\<close>; the two differ at most in the key of an
  unmasked frame.
\<close>

theorem chunked_delivery:
  assumes ne: "\<forall>c\<in>set chunks. c \<noteq> []"
  shows "\<exists>rs r q.
     feed chunks (FrameParser_init f0) = Some rs \<and>
     update (concat chunks) (FrameParser_init g0) = Some (r, q) \<and>
     (case r of None \<Rightarrow> rs = replicate (length chunks) None
      | Some b \<Rightarrow> (\<exists>k a rest. rs = replicate k None @ Some a # rest \<and> same_frame a b)) \<and>
     (concat chunks = frame_bytes f \<and> length (payload f) < 2 ^ 31 \<longrightarrow>
        rs = replicate (length chunks - 1) None @ [Some (decoded_frame f f0)] \<and>
        r = Some (decoded_frame f g0))"
proof -
  from chunked_same_start [OF ne, of f0] obtain rs r0 p0 where
    f: "feed chunks (FrameParser_init f0) = Some rs" and
    u0: "update (concat chunks) (FrameParser_init f0) = Some (r0, p0)" and
    c: "(case r0 of None \<Rightarrow> rs = replicate (length chunks) None
         | Some fr \<Rightarrow> (\<exists>k rest. rs = replicate k None @ Some fr # rest))"
    by blast
  from initial_frame_irrelevant [of "concat chunks" f0 g0] u0 obtain r q where
    u: "update (concat chunks) (FrameParser_init g0) = Some (r, q)" and
    s: "(case r0 of None \<Rightarrow> r = None | Some a \<Rightarrow> (\<exists>b. r = Some b \<and> same_frame a b))"
    by auto
  have rel: "(case r of None \<Rightarrow> rs = replicate (length chunks) None
      | Some b \<Rightarrow> (\<exists>k a rest. rs = replicate k None @ Some a # rest \<and> same_frame a b))"
  proof (cases r0)
    case None
    then show ?thesis using s c by simp
  next
    case (Some a)
    then obtain b where b: "r = Some b" "same_frame a b" using s by auto
    from Some c obtain k rest where "rs = replicate k None @ Some a # rest" by auto
    then have "\<exists>k a' rest. rs = replicate k None @ Some a' # rest \<and> same_frame a' b"
      using b(2) by blast
    then show ?thesis using b(1) by simp
  qed
  have del: "concat chunks = frame_bytes f \<and> length (payload f) < 2 ^ 31 \<longrightarrow>
        rs = replicate (length chunks - 1) None @ [Some (decoded_frame f f0)] \<and>
        r = Some (decoded_frame f g0)"
  proof (intro impI, elim conjE)
    assume cc: "concat chunks = frame_bytes f" and n: "length (payload f) < 2 ^ 31"
    have "rs = replicate (length chunks - 1) None @ [Some (decoded_frame f f0)]"
      using chunked_frame_completes_on_last_call [OF ne cc n, of f0] f by simp
    moreover have "r = Some (decoded_frame f g0)"
      using update_fresh_frame [OF n, of "[]" g0] cc u by simp
    ultimately show "rs = replicate (length chunks - 1) None @ [Some (decoded_frame f f0)] \<and>
        r = Some (decoded_frame f g0)" by simp
  qed
  show ?thesis
    apply (rule exI [of _ rs])
    apply (rule exI [of _ r])
    apply (rule exI [of _ q])
    using f u rel del apply blast
    done
qed

theorem chunked_delivery_witness:
  "\<exists>q. feed [ [0x81, 0x02, 0x48], [0x69] ] (FrameParser_init init_frame_a)
          = Some [None, Some (hi_frame\<lparr>masking_key := [0xA7, 0xFC, 0x7F, 0x00]\<rparr>)] \<and>
        update [0x81, 0x02, 0x48, 0x69] (FrameParser_init init_frame_b)
          = Some (Some (hi_frame\<lparr>masking_key := [0x9B, 0x7E, 0x55, 0x00]\<rparr>), q) \<and>
        same_frame (hi_frame\<lparr>masking_key := [0xA7, 0xFC, 0x7F, 0x00]\<rparr>)
                   (hi_frame\<lparr>masking_key := [0x9B, 0x7E, 0x55, 0x00]\<rparr>)"
proof -
  have ne: "\<forall>c\<in>set [ [0x81, 0x02, 0x48], [0x69 :: u8] ]. c \<noteq> []" by simp
  have cc: "concat [ [0x81, 0x02, 0x48], [0x69 :: u8] ] = frame_bytes hi_frame"
    by (simp add: hi_bytes)
  have n: "length (payload hi_frame) < 2 ^ 31" by (simp add: hi_frame_def)
  have s: "same_frame (hi_frame\<lparr>masking_key := [0xA7, 0xFC, 0x7F, 0x00]\<rparr>)
                   (hi_frame\<lparr>masking_key := [0x9B, 0x7E, 0x55, 0x00]\<rparr>)"
    by (simp add: same_frame_def hi_frame_def)
  from chunked_delivery [OF ne, of init_frame_a init_frame_b hi_frame] cc n s
  show ?thesis
    by (auto simp add: decoded_hi init_frame_a_def init_frame_b_def)
qed

end
